theory Spec2Isabelle
  imports Main
begin

section \<open>The Floor game: data model of \<open>core.py\<close>\<close>

text \<open>
  The Python classes are dataclasses whose objects are shared by reference. The
  embedding keeps one copy of every \<open>Player\<close> object, in the game's \<open>players\<close>
  dictionary, and represents a reference to a player (as held by a \<open>Duel\<close>) by the
  player's \<open>id\<close>: the dictionary is keyed by \<open>p.id\<close>, it is never changed after
  \<open>Game.__init__\<close>, and no operation assigns to \<open>id\<close>. The dictionary itself is the
  list of its values in insertion order (Python dictionaries keep that order); the key
  of a value is its \<open>id\<close>. A reference to a \<open>Duel\<close> object is its index in
  \<open>duel_history\<close>, the only place where the core allocates duels; an index beyond the
  history stands for an object that is not in it. The test \<open>duel not in
  self.duel_history\<close> compares with \<open>==\<close>, and is false for every object of the history;
  a \<open>Duel\<close> built outside the game that equals a history entry field by field is
  outside the model. Python integers are unbounded, so ids, rows and columns are of type
  \<open>int\<close>.
\<close>

record category =
  cat_name :: string
  description :: "string option"

record player =
  player_id :: int
  player_name :: string
  expertise :: "category option"
  positions :: "(int \<times> int) list"
  eliminated :: bool

record duel =
  challenger :: int
  challenged :: int
  duel_category :: category
  duel_winner_id :: "int option"

record board =
  nrows :: int
  ncols :: int
  grid :: "(int \<times> int) \<rightharpoonup> int option"

record game =
  players :: "player list"
  game_board :: board
  game_nrows :: int
  game_ncols :: int
  duel_history :: "duel list"
  over :: bool
  winner_id :: "int option"
  turn_challenger_id :: "int option"

text \<open>
  The error kinds of the specification. The code raises \<open>KeyError\<close> for \<open>UnknownPlayer\<close>
  and \<open>ValueError\<close> (told apart by its message) for the others; no statement of the
  code raises for \<open>OutOfRange\<close>.
\<close>

datatype error =
  InvalidDimension | CardinalityMismatch | UnknownPlayer | SelfChallenge
  | NoExpertiseSet | UnknownDuel | InvalidWinner | OutOfRange

section \<open>Player and Duel\<close>

definition choose_expertise :: "player \<Rightarrow> category \<Rightarrow> player" where
  "choose_expertise p c = p\<lparr>expertise := Some c\<rparr>"

definition primary_position :: "player \<Rightarrow> (int \<times> int) option" where
  "primary_position p = (case positions p of [] \<Rightarrow> None | x # _ \<Rightarrow> Some x)"

text \<open>
  \<open>Duel.resolve\<close>: the check, then the assignment. The result carries the duel as it
  is after the call, also when the call raises.
\<close>

definition resolve :: "duel \<Rightarrow> int \<Rightarrow> (error + unit) \<times> duel" where
  "resolve d w =
     (if w \<noteq> challenger d \<and> w \<noteq> challenged d then (Inl InvalidWinner, d)
      else (Inr (), d\<lparr>duel_winner_id := Some w\<rparr>))"

definition loser :: "duel \<Rightarrow> int" where
  "loser d = (if duel_winner_id d = Some (challenger d) then challenged d else challenger d)"

definition winner :: "duel \<Rightarrow> int option" where
  "winner d =
     (case duel_winner_id d of None \<Rightarrow> None
      | Some w \<Rightarrow> Some (if w = challenger d then challenger d else challenged d))"

section \<open>Board\<close>

definition py_range :: "int \<Rightarrow> int list" where
  "py_range n = map int [0..<nat n]"

text \<open>The cells in the order of the nested loops \<open>for r in range(nrows): for c in range(ncols)\<close>.\<close>

definition cells :: "int \<Rightarrow> int \<Rightarrow> (int \<times> int) list" where
  "cells r c = List.product (py_range r) (py_range c)"

definition new_Board :: "int \<Rightarrow> int \<Rightarrow> error + board" where
  "new_Board r c =
     (if r \<le> 0 \<or> c \<le> 0 then Inl InvalidDimension
      else Inr \<lparr>nrows = r, ncols = c,
                grid = fold (\<lambda>cell m. m(cell \<mapsto> None)) (cells r c) Map.empty\<rparr>)"

definition capacity :: "board \<Rightarrow> int" where
  "capacity b = nrows b * ncols b"

text \<open>
  The loop of \<open>place_players\<close>: every cell takes the next player of the iterator. The
  last equation is the \<open>StopIteration\<close> of \<open>next(it)\<close>, which the length check before the
  loop excludes.
\<close>

fun place_loop ::
  "(int \<times> int) list \<Rightarrow> player list \<Rightarrow> ((int \<times> int) \<rightharpoonup> int option)
    \<Rightarrow> ((int \<times> int) \<rightharpoonup> int option) \<times> player list" where
  "place_loop [] ps m = (m, ps)"
| "place_loop (cell # cs) (p # ps) m =
     (case place_loop cs ps (m(cell \<mapsto> Some (player_id p))) of
        (m', ps') \<Rightarrow> (m', p\<lparr>positions := [cell]\<rparr> # ps'))"
| "place_loop (cell # cs) [] m = (m, [])"

definition place_players :: "board \<Rightarrow> player list \<Rightarrow> (error + unit) \<times> board \<times> player list" where
  "place_players b ps =
     (if int (length ps) \<noteq> capacity b then (Inl CardinalityMismatch, b, ps)
      else (case place_loop (cells (nrows b) (ncols b)) ps (grid b) of
              (m', ps') \<Rightarrow> (Inr (), b\<lparr>grid := m'\<rparr>, ps')))"

definition get_player_position :: "board \<Rightarrow> player \<Rightarrow> (int \<times> int) option" where
  "get_player_position b p = primary_position p"

text \<open>\<open>self._grid.get((row, col))\<close>: \<open>None\<close> for a missing key as for an unowned cell.\<close>

definition get_player_at :: "board \<Rightarrow> int \<Rightarrow> int \<Rightarrow> error + int option" where
  "get_player_at b row col = Inr (case grid b (row, col) of None \<Rightarrow> None | Some v \<Rightarrow> v)"

section \<open>Game\<close>

text \<open>\<open>{p.id: p for p in players}\<close>: a later player with the same id replaces the earlier
  one, at the earlier one's place.\<close>

fun dict_put :: "player \<Rightarrow> player list \<Rightarrow> player list" where
  "dict_put p [] = [p]"
| "dict_put p (q # qs) = (if player_id q = player_id p then p # qs else q # dict_put p qs)"

definition players_dict :: "player list \<Rightarrow> player list" where
  "players_dict ps = fold dict_put ps []"

text \<open>\<open>self.players.get(player_id)\<close>.\<close>

definition players_get :: "game \<Rightarrow> int \<Rightarrow> player option" where
  "players_get g k = find (\<lambda>p. player_id p = k) (players g)"

text \<open>Following the reference to a \<open>Player\<close> that a duel of the history holds.\<close>

definition deref :: "game \<Rightarrow> int \<Rightarrow> player" where
  "deref g k = the (players_get g k)"

text \<open>A field assignment on the player object with id \<open>k\<close>.\<close>

definition update_player :: "int \<Rightarrow> (player \<Rightarrow> player) \<Rightarrow> player list \<Rightarrow> player list" where
  "update_player k f ps = map (\<lambda>q. if player_id q = k then f q else q) ps"

text \<open>
  \<open>Game.__init__\<close>. The second component is the caller's list of players as it is
  after the call: the objects are the ones the game holds, so placement shows in them.
\<close>

definition new_Game :: "player list \<Rightarrow> int \<Rightarrow> int \<Rightarrow> (error + game) \<times> player list" where
  "new_Game ps r c =
     (if int (length ps) \<noteq> r * c then (Inl CardinalityMismatch, ps)
      else (case new_Board r c of
              Inl e \<Rightarrow> (Inl e, ps)
            | Inr b \<Rightarrow>
                (case place_players b ps of
                   (Inl e, b', ps') \<Rightarrow> (Inl e, ps')
                 | (Inr u, b', ps') \<Rightarrow>
                     (Inr \<lparr>players = players_dict ps', game_board = b',
                           game_nrows = r, game_ncols = c, duel_history = [],
                           over = False, winner_id = None, turn_challenger_id = None\<rparr>,
                      ps'))))"

definition set_player_expertise :: "game \<Rightarrow> int \<Rightarrow> category \<Rightarrow> (error + unit) \<times> game" where
  "set_player_expertise g k c =
     (case players_get g k of
        None \<Rightarrow> (Inl UnknownPlayer, g)
      | Some p \<Rightarrow> (Inr (), g\<lparr>players := update_player k (\<lambda>q. choose_expertise q c) (players g)\<rparr>))"

text \<open>\<open>challenge\<close> returns the reference to the new duel: its index in the history.\<close>

definition challenge :: "game \<Rightarrow> int \<Rightarrow> int \<Rightarrow> (error + nat) \<times> game" where
  "challenge g a b =
     (if a = b then (Inl SelfChallenge, g)
      else (case (players_get g a, players_get g b) of
              (Some pa, Some pb) \<Rightarrow>
                (case expertise pb of
                   None \<Rightarrow> (Inl NoExpertiseSet, g)
                 | Some cat \<Rightarrow>
                     (Inr (length (duel_history g)),
                      g\<lparr>duel_history := duel_history g @
                          [\<lparr>challenger = a, challenged = b, duel_category = cat,
                            duel_winner_id = None\<rparr>]\<rparr>))
            | _ \<Rightarrow> (Inl UnknownPlayer, g)))"

text \<open>The players that are not eliminated, in the order of \<open>self.players.values()\<close>.\<close>

definition alive_players :: "game \<Rightarrow> player list" where
  "alive_players g = filter (\<lambda>p. \<not> eliminated p) (players g)"

text \<open>
  \<open>resolve_duel\<close>, statement by statement: the membership test, \<open>duel.resolve\<close> (whose
  effect on the duel object is kept also when it raises), the choice of winner and
  loser, the transfer loop over a copy of the loser's positions, the winner's new
  expertise (read from the challenger after the loop), the clearing of the loser, and the
  end-of-game check.
\<close>

definition resolve_duel :: "game \<Rightarrow> nat \<Rightarrow> int \<Rightarrow> (error + unit) \<times> game" where
  "resolve_duel g i w =
     (if \<not> i < length (duel_history g) then (Inl UnknownDuel, g)
      else (case resolve (duel_history g ! i) w of
              (Inl e, d') \<Rightarrow> (Inl e, g\<lparr>duel_history := (duel_history g)[i := d']\<rparr>)
            | (Inr u, d') \<Rightarrow>
                (let g1 = g\<lparr>duel_history := (duel_history g)[i := d']\<rparr>;
                     wi = (if duel_winner_id d' = Some (challenger d') then challenger d'
                           else challenged d');
                     li = (if duel_winner_id d' = Some (challenger d') then challenged d'
                           else challenger d');
                     lpos = positions (deref g1 li);
                     b2 = (game_board g1)\<lparr>grid :=
                             fold (\<lambda>pos m. m(pos \<mapsto> Some wi)) lpos (grid (game_board g1))\<rparr>;
                     g2 = g1\<lparr>game_board := b2,
                             players := update_player wi
                               (\<lambda>q. q\<lparr>positions := positions q @ lpos\<rparr>) (players g1)\<rparr>;
                     ex = expertise (deref g2 (challenger d'));
                     g3 = g2\<lparr>players := update_player wi (\<lambda>q. q\<lparr>expertise := ex\<rparr>) (players g2)\<rparr>;
                     g4 = g3\<lparr>players := update_player li
                               (\<lambda>q. q\<lparr>positions := [], eliminated := True\<rparr>) (players g3)\<rparr>;
                     alive = alive_players g4
                 in (Inr (),
                     if length alive = 1
                        \<and> int (length (positions (hd alive))) = capacity (game_board g4)
                     then g4\<lparr>over := True, winner_id := Some (player_id (hd alive))\<rparr>
                     else g4))))"

text \<open>
  \<open>start_turn\<close>. \<open>random.choice(seq)\<close> is \<open>seq[k]\<close> for an index \<open>k\<close> that the generator
  draws uniformly below \<open>len(seq)\<close>; the draw is the parameter \<open>k\<close>.
\<close>

definition turn_candidates :: "game \<Rightarrow> player list" where
  "turn_candidates g =
     (let ones = filter (\<lambda>p. length (positions p) = 1) (alive_players g)
      in if ones \<noteq> [] then ones else alive_players g)"

definition start_turn :: "game \<Rightarrow> nat \<Rightarrow> int option \<times> game" where
  "start_turn g k =
     (if alive_players g = [] then (None, g\<lparr>turn_challenger_id := None\<rparr>)
      else (let chosen = turn_candidates g ! k
            in (Some (player_id chosen), g\<lparr>turn_challenger_id := Some (player_id chosen)\<rparr>)))"

section \<open>Reachable states\<close>

text \<open>
  A game is built from players with pairwise different ids (the data model's
  requirement on the caller) and then driven by the four operations, whether a call
  succeeds or raises. A draw of \<open>start_turn\<close> is below the number of candidates.
\<close>

inductive reachable :: "game \<Rightarrow> bool" where
  init: "distinct (map player_id ps) \<Longrightarrow> fst (new_Game ps r c) = Inr g \<Longrightarrow> reachable g"
| expertise_step: "reachable g \<Longrightarrow> reachable (snd (set_player_expertise g k cat))"
| challenge_step: "reachable g \<Longrightarrow> reachable (snd (challenge g a b))"
| resolve_step: "reachable g \<Longrightarrow> reachable (snd (resolve_duel g i w))"
| turn_step: "reachable g \<Longrightarrow> k < length (turn_candidates g) \<or> alive_players g = []
    \<Longrightarrow> reachable (snd (start_turn g k))"

section \<open>Invariants\<close>

text \<open>
  Well-formedness: the dictionary's keys are pairwise different, the board has the
  dimensions the game was built with, and every duel of the history joins two different
  registered players.
\<close>

definition wf_game :: "game \<Rightarrow> bool" where
  "wf_game g \<longleftrightarrow>
     distinct (map player_id (players g))
     \<and> 0 < nrows (game_board g) \<and> 0 < ncols (game_board g)
     \<and> (\<forall>d \<in> set (duel_history g).
           challenger d \<noteq> challenged d
           \<and> challenger d \<in> player_id ` set (players g)
           \<and> challenged d \<in> player_id ` set (players g))"

definition board_cells :: "game \<Rightarrow> (int \<times> int) set" where
  "board_cells g = set (cells (nrows (game_board g)) (ncols (game_board g)))"

text \<open>
  The partition invariant: the players' positions cover the board, no two players share
  a cell, and the grid maps every cell to the id of a player whose positions hold it.
\<close>

definition partition_inv :: "game \<Rightarrow> bool" where
  "partition_inv g \<longleftrightarrow>
     (\<Union>p \<in> set (players g). set (positions p)) = board_cells g
     \<and> (\<forall>p \<in> set (players g). \<forall>q \<in> set (players g).
           player_id p \<noteq> player_id q \<longrightarrow> set (positions p) \<inter> set (positions q) = {})
     \<and> (\<forall>cell \<in> board_cells g. \<exists>p \<in> set (players g).
           cell \<in> set (positions p)
           \<and> grid (game_board g) cell = Some (Some (player_id p)))"

text \<open>The grid has no key outside the board.\<close>

definition grid_dom_inv :: "game \<Rightarrow> bool" where
  "grid_dom_inv g \<longleftrightarrow> (\<forall>cell. cell \<notin> board_cells g \<longrightarrow> grid (game_board g) cell = None)"

text \<open>Exactly one player is not eliminated, and that player owns as many cells as the
  board has.\<close>

definition sole_owner :: "game \<Rightarrow> player \<Rightarrow> bool" where
  "sole_owner g p \<longleftrightarrow>
     alive_players g = [p] \<and> int (length (positions p)) = capacity (game_board g)"

text \<open>
  What a successful \<open>resolve_duel\<close> does to one player, when \<open>wi\<close> wins against
  \<open>li\<close>: the loser is cleared and eliminated, the winner takes the loser's cells \<open>lpos\<close>
  and the expertise \<open>ex\<close>, everybody else stays.
\<close>

definition transfer ::
  "int \<Rightarrow> int \<Rightarrow> (int \<times> int) list \<Rightarrow> category option \<Rightarrow> player \<Rightarrow> player" where
  "transfer wi li lpos ex q =
     (if player_id q = li then q\<lparr>positions := [], eliminated := True\<rparr>
      else if player_id q = wi then q\<lparr>positions := positions q @ lpos, expertise := ex\<rparr>
      else q)"

text \<open>The end-of-game check that closes \<open>resolve_duel\<close>.\<close>

definition end_check :: "game \<Rightarrow> game" where
  "end_check g =
     (if length (alive_players g) = 1
         \<and> int (length (positions (hd (alive_players g)))) = capacity (game_board g)
      then g\<lparr>over := True, winner_id := Some (player_id (hd (alive_players g)))\<rparr>
      else g)"

definition other_party :: "duel \<Rightarrow> int \<Rightarrow> int" where
  "other_party d w = (if w = challenger d then challenged d else challenger d)"

section \<open>Example runs\<close>

text \<open>\<open>Player(id=i, name=n)\<close> and \<open>Category(name=n)\<close> with the dataclass defaults.\<close>

definition new_Player :: "int \<Rightarrow> string \<Rightarrow> player" where
  "new_Player i n =
     \<lparr>player_id = i, player_name = n, expertise = None, positions = [], eliminated = False\<rparr>"

definition new_Category :: "string \<Rightarrow> category" where
  "new_Category n = \<lparr>cat_name = n, description = None\<rparr>"

definition the_game :: "(error + game) \<times> player list \<Rightarrow> game" where
  "the_game r = (case fst r of Inr g \<Rightarrow> g)"

definition succeeded :: "(error + 'a) \<times> 'b \<Rightarrow> bool" where
  "succeeded r = (case fst r of Inl e \<Rightarrow> False | Inr x \<Rightarrow> True)"

definition failed_with :: "(error + 'a) \<times> 'b \<Rightarrow> error \<Rightarrow> bool" where
  "failed_with r e = (case fst r of Inl e' \<Rightarrow> e' = e | Inr x \<Rightarrow> False)"

text \<open>The 1x2 game of the test suite: Bob declares Science, Alice challenges Bob, Bob
  wins; then the same duel is resolved again, for Alice.\<close>

definition duo0 :: game where
  "duo0 = the_game (new_Game [new_Player 1 ''Alice'', new_Player 2 ''Bob''] 1 2)"

definition duo1 :: game where
  "duo1 = snd (set_player_expertise duo0 2 (new_Category ''Science''))"

definition duo2 :: game where
  "duo2 = snd (challenge duo1 1 2)"

definition duo3 :: game where
  "duo3 = snd (resolve_duel duo2 0 2)"

definition duo4 :: game where
  "duo4 = snd (resolve_duel duo3 0 1)"

text \<open>A variant: after the challenge, Alice declares History; then Bob wins.\<close>

definition late2 :: game where
  "late2 = snd (set_player_expertise duo2 1 (new_Category ''History''))"

definition late3 :: game where
  "late3 = snd (resolve_duel late2 0 2)"

text \<open>A 1x3 game with two pending duels of the same challenger: player 1 loses the
  first and then wins the second.\<close>

definition trio0 :: game where
  "trio0 = the_game (new_Game [new_Player 1 ''A'', new_Player 2 ''B'', new_Player 3 ''C''] 1 3)"

definition trio1 :: game where
  "trio1 = snd (set_player_expertise
                 (snd (set_player_expertise trio0 2 (new_Category ''Science'')))
                 3 (new_Category ''History''))"

definition trio2 :: game where
  "trio2 = snd (challenge (snd (challenge trio1 1 2)) 1 3)"

definition trio3 :: game where
  "trio3 = snd (resolve_duel trio2 0 2)"

definition trio4 :: game where
  "trio4 = snd (resolve_duel trio3 1 1)"

text \<open>A game on a single cell.\<close>

definition solo0 :: game where
  "solo0 = the_game (new_Game [new_Player 1 ''Solo''] 1 1)"

section \<open>Lemmas on the building blocks\<close>

lemma resolve_raises_unchanged: "fst (resolve d w) = Inl e \<Longrightarrow> snd (resolve d w) = d"
  by (simp add: resolve_def split: if_splits)

lemma find_update_player:
  assumes "\<And>q. player_id (f q) = player_id q"
  shows "find (\<lambda>p. player_id p = k) (update_player j f ps)
         = map_option (\<lambda>q. if player_id q = j then f q else q) (find (\<lambda>p. player_id p = k) ps)"
  using assms by (induction ps) (auto simp: update_player_def)

lemma ids_update_player:
  assumes "\<And>q. player_id (f q) = player_id q"
  shows "map player_id (update_player j f ps) = map player_id ps"
  using assms by (induction ps) (auto simp: update_player_def)

lemma find_member:
  "distinct (map player_id ps) \<Longrightarrow> p \<in> set ps \<Longrightarrow> find (\<lambda>q. player_id q = player_id p) ps = Some p"
  by (induction ps) (auto simp: image_iff)

lemma find_id_Some: "find (\<lambda>q. player_id q = k) ps = Some p \<Longrightarrow> p \<in> set ps \<and> player_id p = k"
  by (induction ps) (auto split: if_splits)

lemma find_id_None: "find (\<lambda>q. player_id q = k) ps = None \<longleftrightarrow> k \<notin> player_id ` set ps"
  by (induction ps) auto

lemma fold_grid_const:
  "fold (\<lambda>pos m. m(pos \<mapsto> v)) xs m = (\<lambda>c. if c \<in> set xs then Some v else m c)"
  by (induction xs arbitrary: m) (auto simp: fun_eq_iff)

lemma place_loop_Cons:
  "place_loop (c # cs) (p # ps) m =
     (fst (place_loop cs ps (m(c \<mapsto> Some (player_id p)))),
      p\<lparr>positions := [c]\<rparr> # snd (place_loop cs ps (m(c \<mapsto> Some (player_id p)))))"
  by (simp split: prod.splits)

lemma place_loop_players:
  "length cs = length ps \<Longrightarrow>
     snd (place_loop cs ps m) = map2 (\<lambda>cell p. p\<lparr>positions := [cell]\<rparr>) cs ps"
  by (induction cs ps arbitrary: m rule: list_induct2)
     (simp_all add: place_loop_Cons del: place_loop.simps(2))

lemma place_loop_grid_out: "c \<notin> set cs \<Longrightarrow> fst (place_loop cs ps m) c = m c"
  by (induction cs ps m rule: place_loop.induct)
     (simp_all add: place_loop_Cons del: place_loop.simps(2))

lemma place_loop_grid_in:
  "length cs = length ps \<Longrightarrow> distinct cs \<Longrightarrow> i < length cs \<Longrightarrow>
     fst (place_loop cs ps m) (cs ! i) = Some (Some (player_id (ps ! i)))"
proof (induction cs ps arbitrary: m i rule: list_induct2)
  case Nil
  then show ?case by simp
next
  case (Cons c cs p ps)
  show ?case
  proof (cases i)
    case 0
    have "fst (place_loop cs ps (m(c \<mapsto> Some (player_id p)))) c = (m(c \<mapsto> Some (player_id p))) c"
      using Cons.prems by (intro place_loop_grid_out) simp
    with 0 show ?thesis by (simp add: place_loop_Cons del: place_loop.simps(2))
  next
    case (Suc j)
    with Cons show ?thesis by (simp add: place_loop_Cons del: place_loop.simps(2))
  qed
qed

lemma length_cells: "length (cells r c) = nat r * nat c"
  by (simp add: cells_def py_range_def)

lemma distinct_cells: "distinct (cells r c)"
  by (simp add: cells_def py_range_def distinct_product distinct_map inj_on_def)

lemma set_cells: "set (cells r c) = {(a, b). 0 \<le> a \<and> a < r \<and> 0 \<le> b \<and> b < c}"
proof -
  have "set (py_range n) = {a. 0 \<le> a \<and> a < n}" for n
  proof -
    have "a \<in> int ` {0..<nat n} \<longleftrightarrow> 0 \<le> a \<and> a < n" for a
    proof
      assume "a \<in> int ` {0..<nat n}"
      then show "0 \<le> a \<and> a < n" by auto
    next
      assume "0 \<le> a \<and> a < n"
      then have "a = int (nat a)" "nat a \<in> {0..<nat n}" by auto
      then show "a \<in> int ` {0..<nat n}" by blast
    qed
    then show ?thesis by (auto simp: py_range_def)
  qed
  then show ?thesis by (auto simp: cells_def)
qed

lemma nth_cells:
  assumes "i < nat r * nat c"
  shows "cells r c ! i = (int i div c, int i mod c)"
proof -
  from assms have c: "0 < c" by (cases "0 < c") auto
  have l: "length (py_range c) = nat c" "length (py_range r) = nat r" by (simp_all add: py_range_def)
  have "i div nat c < nat r"
    using assms c by (simp add: less_mult_imp_div_less)
  moreover have "i mod nat c < nat c" using c by simp
  ultimately have "cells r c ! i = (int (i div nat c), int (i mod nat c))"
    using assms by (simp add: cells_def product_nth l) (simp add: py_range_def)
  moreover have "int (i div nat c) = int i div c" "int (i mod nat c) = int i mod c"
    using c by (simp_all add: zdiv_int zmod_int)
  ultimately show ?thesis by simp
qed

lemma dict_put_fresh: "player_id p \<notin> player_id ` set qs \<Longrightarrow> dict_put p qs = qs @ [p]"
  by (induction qs) auto

lemma fold_dict_put_distinct:
  "distinct (map player_id (acc @ ps)) \<Longrightarrow> fold dict_put ps acc = acc @ ps"
proof (induction ps arbitrary: acc)
  case Nil
  then show ?case by simp
next
  case (Cons p ps)
  then have "dict_put p acc = acc @ [p]" by (intro dict_put_fresh) auto
  moreover have "distinct (map player_id ((acc @ [p]) @ ps))" using Cons.prems by simp
  ultimately show ?case using Cons.IH [of "acc @ [p]"] by simp
qed

lemma players_dict_distinct: "distinct (map player_id ps) \<Longrightarrow> players_dict ps = ps"
  using fold_dict_put_distinct [of "[]" ps] by (simp add: players_dict_def)

lemma expertise_find_positions:
  "expertise (the (map_option (\<lambda>q. if player_id q = j then q\<lparr>positions := f q\<rparr> else q) x))
     = expertise (the x)"
  by (cases x) auto

lemma resolve_duel_unknown:
  "\<not> i < length (duel_history g) \<Longrightarrow> resolve_duel g i w = (Inl UnknownDuel, g)"
  by (simp add: resolve_duel_def)

lemma resolve_duel_invalid:
  "i < length (duel_history g) \<Longrightarrow> w \<noteq> challenger (duel_history g ! i)
     \<Longrightarrow> w \<noteq> challenged (duel_history g ! i) \<Longrightarrow> resolve_duel g i w = (Inl InvalidWinner, g)"
  by (simp add: resolve_duel_def resolve_def)

lemma three_updates:
  "wi \<noteq> li \<Longrightarrow>
   update_player li (\<lambda>q. q\<lparr>positions := [], eliminated := True\<rparr>)
     (update_player wi (\<lambda>q. q\<lparr>expertise := ex\<rparr>)
       (update_player wi (\<lambda>q. q\<lparr>positions := positions q @ lpos\<rparr>) ps))
   = map (transfer wi li lpos ex) ps"
  by (auto simp: update_player_def transfer_def)

lemma resolve_duel_success:
  assumes "i < length (duel_history g)" and "d = duel_history g ! i"
    and "challenger d \<noteq> challenged d" and "w = challenger d \<or> w = challenged d"
  shows "resolve_duel g i w =
    (Inr (),
     end_check (g\<lparr>duel_history := (duel_history g)[i := d\<lparr>duel_winner_id := Some w\<rparr>],
                  game_board := (game_board g)\<lparr>grid :=
                     (\<lambda>c. if c \<in> set (positions (deref g (other_party d w)))
                          then Some (Some w) else grid (game_board g) c)\<rparr>,
                  players := map (transfer w (other_party d w)
                                    (positions (deref g (other_party d w)))
                                    (expertise (deref g (challenger d)))) (players g)\<rparr>))"
proof (cases "w = challenger d")
  case True
  with assms(3) have o: "other_party d w = challenged d" by (simp add: other_party_def)
  from True assms(1-3) show ?thesis
    unfolding o
    by (simp add: resolve_duel_def resolve_def Let_def deref_def players_get_def
        find_update_player expertise_find_positions fold_grid_const three_updates end_check_def
        split del: if_split cong: if_cong)
next
  case False
  with assms(4) have w: "w = challenged d" by simp
  with assms(3) have o: "other_party d w = challenger d" by (simp add: other_party_def)
  from w assms(1-3) show ?thesis
    unfolding o
    by (simp add: resolve_duel_def resolve_def Let_def deref_def players_get_def
        find_update_player expertise_find_positions fold_grid_const three_updates end_check_def
        split del: if_split cong: if_cong)
qed

lemma new_Game_Inr:
  assumes "fst (new_Game ps r c) = Inr g"
  shows "0 < r" and "0 < c" and "int (length ps) = r * c"
    and "players g = players_dict (snd (place_loop (cells r c) ps
                  (fold (\<lambda>cell m. m(cell \<mapsto> None)) (cells r c) Map.empty)))"
    and "nrows (game_board g) = r" and "ncols (game_board g) = c"
    and "grid (game_board g) = fst (place_loop (cells r c) ps
                  (fold (\<lambda>cell m. m(cell \<mapsto> None)) (cells r c) Map.empty))"
    and "game_nrows g = r" and "game_ncols g = c"
    and "duel_history g = []" and "\<not> over g" and "winner_id g = None"
    and "turn_challenger_id g = None"
  using assms
  by (auto simp: new_Game_def new_Board_def place_players_def capacity_def
      split: if_splits prod.splits sum.splits)

lemma length_cells_players:
  "0 < r \<Longrightarrow> 0 < c \<Longrightarrow> int (length ps) = r * c \<Longrightarrow> length (cells r c) = length ps"
proof -
  assume a: "0 < r" "0 < c" "int (length ps) = r * c"
  have "int (nat r * nat c) = r * c" using a by simp
  with a have "int (nat r * nat c) = int (length ps)" by simp
  then show ?thesis by (simp only: length_cells of_nat_eq_iff)
qed

lemma placed_ids:
  "length cs = length ps \<Longrightarrow>
     map player_id (map2 (\<lambda>cell p. p\<lparr>positions := [cell]\<rparr>) cs ps) = map player_id ps"
  by (induction cs ps rule: list_induct2) auto

lemma placed_union:
  "length cs = length ps \<Longrightarrow>
     (\<Union>p \<in> set (map2 (\<lambda>cell p. p\<lparr>positions := [cell]\<rparr>) cs ps). set (positions p)) = set cs"
  by (induction cs ps rule: list_induct2) auto

lemma placed_nth:
  "length cs = length ps \<Longrightarrow> i < length ps \<Longrightarrow>
     map2 (\<lambda>cell p. p\<lparr>positions := [cell]\<rparr>) cs ps ! i = (ps ! i)\<lparr>positions := [cs ! i]\<rparr>"
  by simp

lemma new_Game_players:
  assumes "fst (new_Game ps r c) = Inr g" and "distinct (map player_id ps)"
  shows "players g = map2 (\<lambda>cell p. p\<lparr>positions := [cell]\<rparr>) (cells r c) ps"
    and "length (cells r c) = length ps"
proof -
  note a = new_Game_Inr(1-3) [OF assms(1)] and p = new_Game_Inr(4) [OF assms(1)]
  show l: "length (cells r c) = length ps" using a by (rule length_cells_players)
  have "distinct (map player_id (map2 (\<lambda>cell p. p\<lparr>positions := [cell]\<rparr>) (cells r c) ps))"
    using assms(2) l by (simp only: placed_ids)
  then show "players g = map2 (\<lambda>cell p. p\<lparr>positions := [cell]\<rparr>) (cells r c) ps"
    using p l by (simp add: place_loop_players players_dict_distinct)
qed

lemma same_id_same_player:
  "distinct (map player_id ps) \<Longrightarrow> p \<in> set ps \<Longrightarrow> q \<in> set ps
     \<Longrightarrow> player_id p = player_id q \<Longrightarrow> p = q"
  by (auto simp: distinct_map inj_on_def)

lemma deref_member:
  "distinct (map player_id (players g)) \<Longrightarrow> p \<in> set (players g) \<Longrightarrow> deref g (player_id p) = p"
  by (simp add: deref_def players_get_def find_member)

lemma transfer_id [simp]: "player_id (transfer wi li lpos ex q) = player_id q"
  by (simp add: transfer_def)

lemma transfer_positions:
  "positions (transfer wi li lpos ex q) =
     (if player_id q = li then [] else if player_id q = wi then positions q @ lpos else positions q)"
  by (simp add: transfer_def)

lemma init_wf:
  assumes "fst (new_Game ps r c) = Inr g" and "distinct (map player_id ps)"
  shows "wf_game g"
proof -
  have "map player_id (players g) = map player_id ps"
    using new_Game_players [OF assms] by (simp only: placed_ids)
  then show ?thesis
    using assms(2) new_Game_Inr [OF assms(1)] by (simp add: wf_game_def)
qed

lemma init_partition:
  assumes "fst (new_Game ps r c) = Inr g" and "distinct (map player_id ps)"
  shows "partition_inv g"
proof -
  let ?cs = "cells r c"
  note pl = new_Game_players(1) [OF assms] and len = new_Game_players(2) [OF assms]
  note bd = new_Game_Inr(5-7) [OF assms(1)]
  have cells: "board_cells g = set ?cs" by (simp add: board_cells_def bd)
  have nth: "players g ! i = (ps ! i)\<lparr>positions := [?cs ! i]\<rparr>" if "i < length ps" for i
    using that len by (simp add: pl)
  have lenp: "length (players g) = length ps" using len by (simp add: pl)
  have u: "(\<Union>p \<in> set (players g). set (positions p)) = board_cells g"
    unfolding cells pl using len by (rule placed_union)
  have d: "set (positions p) \<inter> set (positions q) = {}"
    if "p \<in> set (players g)" "q \<in> set (players g)" "player_id p \<noteq> player_id q" for p q
  proof -
    from that(1) lenp obtain i where i: "i < length ps" "p = players g ! i"
      by (auto simp: in_set_conv_nth)
    from that(2) lenp obtain j where j: "j < length ps" "q = players g ! j"
      by (auto simp: in_set_conv_nth)
    from that(3) i j have "i \<noteq> j" by auto
    then have "?cs ! i \<noteq> ?cs ! j"
      using i(1) j(1) len distinct_cells [of r c] by (simp add: nth_eq_iff_index_eq)
    then show ?thesis using i j by (simp add: nth)
  qed
  have g: "\<exists>p \<in> set (players g). cell \<in> set (positions p)
             \<and> grid (game_board g) cell = Some (Some (player_id p))"
    if "cell \<in> board_cells g" for cell
  proof -
    from that cells len obtain i where i: "i < length ps" "cell = ?cs ! i"
      by (auto simp: in_set_conv_nth)
    have "grid (game_board g) (?cs ! i) = Some (Some (player_id (ps ! i)))"
      unfolding bd using len distinct_cells i(1) by (intro place_loop_grid_in) simp_all
    moreover have "players g ! i \<in> set (players g)" using i(1) lenp by simp
    ultimately show ?thesis using i by (intro bexI [of _ "players g ! i"]) (simp_all add: nth)
  qed
  show ?thesis unfolding partition_inv_def using u d g by blast
qed

lemma init_grid_dom:
  assumes "fst (new_Game ps r c) = Inr g"
  shows "grid_dom_inv g"
  using new_Game_Inr(5-7) [OF assms]
  by (simp add: grid_dom_inv_def board_cells_def place_loop_grid_out fold_grid_const)

lemma transfer_partition:
  assumes di: "distinct (map player_id (players g))"
    and wi: "wi \<in> player_id ` set (players g)" and li: "li \<in> player_id ` set (players g)"
    and ne: "wi \<noteq> li"
    and inv: "partition_inv g"
    and pl: "players g' = map (transfer wi li (positions (deref g li)) ex) (players g)"
    and bd: "game_board g' = (game_board g)\<lparr>grid :=
               (\<lambda>c. if c \<in> set (positions (deref g li)) then Some (Some wi)
                    else grid (game_board g) c)\<rparr>"
  shows "partition_inv g'"
proof -
  from li obtain lp where lp: "lp \<in> set (players g)" "player_id lp = li" by auto
  from wi obtain wp where wp: "wp \<in> set (players g)" "player_id wp = wi" by auto
  have dl: "deref g li = lp" using deref_member [OF di lp(1)] lp(2) by simp
  let ?T = "transfer wi li (positions lp) ex"
  have cells: "board_cells g' = board_cells g" by (simp add: board_cells_def bd)
  have isl: "q = lp" if "q \<in> set (players g)" "player_id q = li" for q
    using same_id_same_player [OF di that(1) lp(1)] that(2) lp(2) by simp
  have isw: "q = wp" if "q \<in> set (players g)" "player_id q = wi" for q
    using same_id_same_player [OF di that(1) wp(1)] that(2) wp(2) by simp
  from inv have u: "(\<Union>p \<in> set (players g). set (positions p)) = board_cells g"
    and d: "\<And>p q. p \<in> set (players g) \<Longrightarrow> q \<in> set (players g) \<Longrightarrow> player_id p \<noteq> player_id q
              \<Longrightarrow> set (positions p) \<inter> set (positions q) = {}"
    and gr: "\<And>cell. cell \<in> board_cells g \<Longrightarrow> \<exists>p \<in> set (players g). cell \<in> set (positions p)
              \<and> grid (game_board g) cell = Some (Some (player_id p))"
    unfolding partition_inv_def by blast+
  have u': "(\<Union>p \<in> set (players g'). set (positions p)) = board_cells g'"
  proof (rule set_eqI)
    fix x
    show "x \<in> (\<Union>p \<in> set (players g'). set (positions p)) \<longleftrightarrow> x \<in> board_cells g'"
    proof
      assume "x \<in> (\<Union>p \<in> set (players g'). set (positions p))"
      then obtain q where q: "q \<in> set (players g)" "x \<in> set (positions (?T q))"
        by (auto simp: pl dl)
      then have "x \<in> set (positions q) \<or> x \<in> set (positions lp)"
        by (auto simp: transfer_positions split: if_splits)
      then show "x \<in> board_cells g'" using q(1) lp(1) u cells by auto
    next
      assume "x \<in> board_cells g'"
      then obtain q where q: "q \<in> set (players g)" "x \<in> set (positions q)"
        using u cells by auto
      show "x \<in> (\<Union>p \<in> set (players g'). set (positions p))"
      proof (cases "player_id q = li")
        case True
        then have "q = lp" using q(1) by (intro isl)
        then have "x \<in> set (positions (?T wp))" using q(2) wp(2) ne by (simp add: transfer_positions)
        then show ?thesis using wp(1) by (auto simp: pl dl)
      next
        case False
        then have "x \<in> set (positions (?T q))" using q(2) by (simp add: transfer_positions)
        then show ?thesis using q(1) by (auto simp: pl dl)
      qed
    qed
  qed
  have d': "set (positions p) \<inter> set (positions q) = {}"
    if "p \<in> set (players g')" "q \<in> set (players g')" "player_id p \<noteq> player_id q" for p q
  proof -
    from that(1) obtain p0 where p0: "p0 \<in> set (players g)" "p = ?T p0" by (auto simp: pl dl)
    from that(2) obtain q0 where q0: "q0 \<in> set (players g)" "q = ?T q0" by (auto simp: pl dl)
    from that(3) p0 q0 have n: "player_id p0 \<noteq> player_id q0" by simp
    have a: "set (positions p0) \<inter> set (positions q0) = {}" using d p0(1) q0(1) n by blast
    have b: "set (positions p0) \<inter> set (positions lp) = {}" if "player_id p0 \<noteq> li"
      using d [OF p0(1) lp(1)] that lp(2) by simp
    have c: "set (positions q0) \<inter> set (positions lp) = {}" if "player_id q0 \<noteq> li"
      using d [OF q0(1) lp(1)] that lp(2) by simp
    show ?thesis
      using a b c n unfolding p0(2) q0(2) transfer_positions
      by (auto split: if_splits)
  qed
  have g': "\<exists>p \<in> set (players g'). cell \<in> set (positions p)
              \<and> grid (game_board g') cell = Some (Some (player_id p))"
    if "cell \<in> board_cells g'" for cell
  proof -
    from that cells have "cell \<in> board_cells g" by simp
    from gr [OF this] obtain q where q: "q \<in> set (players g)" "cell \<in> set (positions q)"
      "grid (game_board g) cell = Some (Some (player_id q))" by blast
    show ?thesis
    proof (cases "player_id q = li")
      case True
      then have ql: "q = lp" using q(1) by (intro isl)
      have "?T wp \<in> set (players g')" using wp(1) by (simp add: pl dl)
      moreover have "cell \<in> set (positions (?T wp))"
        using q(2) ql wp(2) ne by (simp add: transfer_positions)
      moreover have "grid (game_board g') cell = Some (Some (player_id (?T wp)))"
        using q(2) ql wp(2) by (simp add: bd dl)
      ultimately show ?thesis by blast
    next
      case False
      have "?T q \<in> set (players g')" using q(1) by (simp add: pl dl)
      moreover have "cell \<in> set (positions (?T q))"
        using q(2) False by (simp add: transfer_positions)
      moreover have "grid (game_board g') cell = Some (Some (player_id (?T q)))"
      proof (cases "player_id q = wi")
        case True
        then show ?thesis using q(3) by (simp add: bd dl)
      next
        case w: False
        have "cell \<notin> set (positions lp)"
          using d [OF q(1) lp(1)] False lp(2) q(2) by auto
        then show ?thesis using q(3) by (simp add: bd dl)
      qed
      ultimately show ?thesis by blast
    qed
  qed
  show ?thesis unfolding partition_inv_def using u' d' g' by blast
qed

lemma end_check_fields [simp]:
  "players (end_check g) = players g" "game_board (end_check g) = game_board g"
  "duel_history (end_check g) = duel_history g"
  "turn_challenger_id (end_check g) = turn_challenger_id g"
  "game_nrows (end_check g) = game_nrows g" "game_ncols (end_check g) = game_ncols g"
  by (simp_all add: end_check_def)

lemma partition_inv_pairs:
  "partition_inv g \<longleftrightarrow>
     (\<Union>x \<in> (\<lambda>p. (player_id p, positions p)) ` set (players g). set (snd x)) = board_cells g
     \<and> (\<forall>x \<in> (\<lambda>p. (player_id p, positions p)) ` set (players g).
         \<forall>y \<in> (\<lambda>p. (player_id p, positions p)) ` set (players g).
           fst x \<noteq> fst y \<longrightarrow> set (snd x) \<inter> set (snd y) = {})
     \<and> (\<forall>cell \<in> board_cells g. \<exists>x \<in> (\<lambda>p. (player_id p, positions p)) ` set (players g).
           cell \<in> set (snd x) \<and> grid (game_board g) cell = Some (Some (fst x)))"
  by (simp add: partition_inv_def)

lemma partition_inv_same_cells:
  assumes "map (\<lambda>p. (player_id p, positions p)) (players g')
           = map (\<lambda>p. (player_id p, positions p)) (players g)"
    and "game_board g' = game_board g"
  shows "partition_inv g' = partition_inv g"
proof -
  have "set (map (\<lambda>p. (player_id p, positions p)) (players g'))
        = set (map (\<lambda>p. (player_id p, positions p)) (players g))"
    using assms(1) by simp
  then have "(\<lambda>p. (player_id p, positions p)) ` set (players g')
             = (\<lambda>p. (player_id p, positions p)) ` set (players g)"
    by (simp only: set_map)
  moreover have "board_cells g' = board_cells g" using assms(2) by (simp add: board_cells_def)
  ultimately show ?thesis unfolding partition_inv_pairs using assms(2) by simp
qed

lemma set_expertise_players:
  "map (\<lambda>p. (player_id p, positions p)) (players (snd (set_player_expertise g k c)))
     = map (\<lambda>p. (player_id p, positions p)) (players g)"
  "map eliminated (players (snd (set_player_expertise g k c))) = map eliminated (players g)"
  by (auto simp: set_player_expertise_def update_player_def choose_expertise_def
      split: option.splits)

lemma set_expertise_rest:
  "game_board (snd (set_player_expertise g k c)) = game_board g"
  "duel_history (snd (set_player_expertise g k c)) = duel_history g"
  "over (snd (set_player_expertise g k c)) = over g"
  "winner_id (snd (set_player_expertise g k c)) = winner_id g"
  "turn_challenger_id (snd (set_player_expertise g k c)) = turn_challenger_id g"
  by (simp_all add: set_player_expertise_def split: option.splits)

lemma ids_of_pairs:
  "map (\<lambda>p. (player_id p, positions p)) ps' = map (\<lambda>p. (player_id p, positions p)) ps
     \<Longrightarrow> map player_id ps' = map player_id ps"
proof -
  assume "map (\<lambda>p. (player_id p, positions p)) ps' = map (\<lambda>p. (player_id p, positions p)) ps"
  then have "map fst (map (\<lambda>p. (player_id p, positions p)) ps')
             = map fst (map (\<lambda>p. (player_id p, positions p)) ps)" by simp
  then show ?thesis by (simp add: comp_def)
qed

lemma wf_game_same:
  assumes "map player_id (players g') = map player_id (players g)"
    and "nrows (game_board g') = nrows (game_board g)"
    and "ncols (game_board g') = ncols (game_board g)"
    and "duel_history g' = duel_history g"
  shows "wf_game g' = wf_game g"
proof -
  have "set (map player_id (players g')) = set (map player_id (players g))"
    using assms(1) by simp
  then have "player_id ` set (players g') = player_id ` set (players g)" by (simp only: set_map)
  then show ?thesis using assms by (simp add: wf_game_def)
qed

lemma challenge_players:
  "players (snd (challenge g a b)) = players g"
  "game_board (snd (challenge g a b)) = game_board g"
  "over (snd (challenge g a b)) = over g"
  "winner_id (snd (challenge g a b)) = winner_id g"
  "turn_challenger_id (snd (challenge g a b)) = turn_challenger_id g"
  by (simp_all add: challenge_def split: option.splits)

lemma challenge_history:
  "duel_history (snd (challenge g a b)) = duel_history g
   \<or> (a \<noteq> b \<and> a \<in> player_id ` set (players g) \<and> b \<in> player_id ` set (players g)
       \<and> (\<exists>d. challenger d = a \<and> challenged d = b
                \<and> duel_history (snd (challenge g a b)) = duel_history g @ [d]))"
  by (auto simp: challenge_def players_get_def find_id_None split: option.splits
      dest: find_id_Some)

lemma start_turn_fields:
  "players (snd (start_turn g k)) = players g"
  "game_board (snd (start_turn g k)) = game_board g"
  "duel_history (snd (start_turn g k)) = duel_history g"
  "over (snd (start_turn g k)) = over g"
  "winner_id (snd (start_turn g k)) = winner_id g"
  by (simp_all add: start_turn_def Let_def)

lemma wf_challenge: "wf_game g \<Longrightarrow> wf_game (snd (challenge g a b))"
  using challenge_history [of g a b]
  by (auto simp: wf_game_def challenge_players)

lemma resolve_duel_failure:
  "fst (resolve_duel g i w) \<noteq> Inr () \<Longrightarrow> snd (resolve_duel g i w) = g"
  by (cases "i < length (duel_history g)")
     (auto simp: resolve_duel_def resolve_def Let_def split: if_splits)

lemma resolve_duel_Inr:
  "fst (resolve_duel g i w) = Inr () \<Longrightarrow>
     i < length (duel_history g)
     \<and> (w = challenger (duel_history g ! i) \<or> w = challenged (duel_history g ! i))"
  by (cases "i < length (duel_history g)")
     (auto simp: resolve_duel_def resolve_def Let_def split: if_splits)

lemma resolve_step_invariants:
  assumes wf: "wf_game g" and pa: "partition_inv g" and gd: "grid_dom_inv g"
    and ok: "fst (resolve_duel g i w) = Inr ()"
  shows "wf_game (snd (resolve_duel g i w)) \<and> partition_inv (snd (resolve_duel g i w))
         \<and> grid_dom_inv (snd (resolve_duel g i w))"
proof -
  let ?d = "duel_history g ! i"
  let ?li = "other_party ?d w"
  from resolve_duel_Inr [OF ok] have i: "i < length (duel_history g)"
    and w: "w = challenger ?d \<or> w = challenged ?d" by simp_all
  from i have mem: "?d \<in> set (duel_history g)" by simp
  with wf have ne: "challenger ?d \<noteq> challenged ?d"
    and reg: "challenger ?d \<in> player_id ` set (players g)"
             "challenged ?d \<in> player_id ` set (players g)"
    and di: "distinct (map player_id (players g))"
    unfolding wf_game_def by blast+
  from w ne reg have wreg: "w \<in> player_id ` set (players g)"
    and lreg: "?li \<in> player_id ` set (players g)" and wl: "w \<noteq> ?li"
    by (auto simp: other_party_def)
  define g' where "g' = snd (resolve_duel g i w)"
  note s = resolve_duel_success [OF i refl ne w]
  have pl: "players g' = map (transfer w ?li (positions (deref g ?li))
                (expertise (deref g (challenger ?d)))) (players g)"
    and bd: "game_board g' = (game_board g)\<lparr>grid :=
               (\<lambda>c. if c \<in> set (positions (deref g ?li)) then Some (Some w)
                    else grid (game_board g) c)\<rparr>"
    and hi: "duel_history g' = (duel_history g)[i := ?d\<lparr>duel_winner_id := Some w\<rparr>]"
    unfolding g'_def s by simp_all
  have "partition_inv g'" using di wreg lreg wl pa pl bd by (rule transfer_partition)
  moreover have "wf_game g'"
  proof -
    have ids: "map player_id (players g') = map player_id (players g)"
      by (simp add: pl comp_def)
    then have "set (map player_id (players g')) = set (map player_id (players g))" by simp
    then have im: "player_id ` set (players g') = player_id ` set (players g)"
      by (simp only: set_map)
    have old: "\<And>d. d \<in> set (duel_history g) \<Longrightarrow> challenger d \<noteq> challenged d
            \<and> challenger d \<in> player_id ` set (players g)
            \<and> challenged d \<in> player_id ` set (players g)"
      using wf unfolding wf_game_def by blast
    have new: "challenger d \<noteq> challenged d
            \<and> challenger d \<in> player_id ` set (players g')
            \<and> challenged d \<in> player_id ` set (players g')"
      if "d \<in> set (duel_history g')" for d
    proof -
      from that have "d \<in> insert (?d\<lparr>duel_winner_id := Some w\<rparr>) (set (duel_history g))"
        unfolding hi using set_update_subset_insert [of "duel_history g" i] by blast
      then have "d = ?d\<lparr>duel_winner_id := Some w\<rparr> \<or> d \<in> set (duel_history g)" by simp
      then show ?thesis
      proof
        assume "d = ?d\<lparr>duel_winner_id := Some w\<rparr>"
        then show ?thesis using ne reg unfolding im by simp
      next
        assume "d \<in> set (duel_history g)"
        then show ?thesis using old unfolding im by blast
      qed
    qed
    have "distinct (map player_id (players g'))" using di by (simp only: ids)
    moreover have "0 < nrows (game_board g')" "0 < ncols (game_board g')"
      using wf unfolding wf_game_def by (simp_all add: bd)
    ultimately show ?thesis unfolding wf_game_def using new by blast
  qed
  moreover have "grid_dom_inv g'"
  proof -
    from lreg obtain lp where lp: "lp \<in> set (players g)" "player_id lp = ?li" by auto
    have "deref g ?li = lp" using deref_member [OF di lp(1)] lp(2) by simp
    moreover have "set (positions lp) \<subseteq> board_cells g"
      using pa lp(1) unfolding partition_inv_def by blast
    moreover have "board_cells g' = board_cells g" by (simp add: board_cells_def bd)
    ultimately show ?thesis using gd by (auto simp: grid_dom_inv_def bd)
  qed
  ultimately show ?thesis unfolding g'_def by simp
qed

lemma reachable_invariants: "reachable g \<Longrightarrow> wf_game g \<and> partition_inv g \<and> grid_dom_inv g"
proof (induction rule: reachable.induct)
  case (init ps r c g)
  then show ?case by (simp add: init_wf init_partition init_grid_dom)
next
  case (expertise_step g k cat)
  let ?g' = "snd (set_player_expertise g k cat)"
  have "map player_id (players ?g') = map player_id (players g)"
    by (rule ids_of_pairs) (rule set_expertise_players)
  then have "wf_game ?g' = wf_game g"
    by (rule wf_game_same) (simp_all add: set_expertise_rest)
  moreover have "partition_inv ?g' = partition_inv g"
    by (rule partition_inv_same_cells) (simp_all add: set_expertise_rest set_expertise_players)
  moreover have "grid_dom_inv ?g' = grid_dom_inv g"
    by (simp add: grid_dom_inv_def board_cells_def set_expertise_rest)
  ultimately show ?case using expertise_step.IH by simp
next
  case (challenge_step g a b)
  then show ?case
    by (simp add: wf_challenge partition_inv_def grid_dom_inv_def board_cells_def challenge_players)
next
  case (resolve_step g i w)
  show ?case
  proof (cases "fst (resolve_duel g i w) = Inr ()")
    case True
    with resolve_step.IH show ?thesis by (intro resolve_step_invariants) simp_all
  next
    case False
    then show ?thesis using resolve_step.IH by (simp add: resolve_duel_failure)
  qed
next
  case (turn_step g k)
  then show ?case
    by (simp add: wf_game_def partition_inv_def grid_dom_inv_def board_cells_def start_turn_fields)
qed

lemma find_map_id:
  assumes "\<And>q. player_id (f q) = player_id q"
  shows "find (\<lambda>p. player_id p = k) (map f ps) = map_option f (find (\<lambda>p. player_id p = k) ps)"
  using assms by (induction ps) auto

lemma new_Game_snd:
  assumes "fst (new_Game ps r c) = Inr g"
  shows "snd (new_Game ps r c) = snd (place_loop (cells r c) ps
                  (fold (\<lambda>cell m. m(cell \<mapsto> None)) (cells r c) Map.empty))"
  using assms
  by (auto simp: new_Game_def new_Board_def place_players_def capacity_def
      split: if_splits prod.splits sum.splits)

lemma new_Game_succeeds:
  assumes "0 < r" and "0 < c" and "int (length ps) = r * c"
  shows "\<exists>g. fst (new_Game ps r c) = Inr g"
  using assms
  by (auto simp: new_Game_def new_Board_def place_players_def capacity_def
      split: if_splits prod.splits sum.splits)

lemma new_Game_mismatch:
  "fst (new_Game ps r c) = Inl CardinalityMismatch \<longleftrightarrow> int (length ps) \<noteq> r * c"
  by (auto simp: new_Game_def new_Board_def place_players_def capacity_def
      split: if_splits prod.splits sum.splits)

lemma alive_end_check [simp]: "alive_players (end_check g) = alive_players g"
  by (simp add: alive_players_def)

lemma end_check_sole:
  "sole_owner (end_check g) p \<Longrightarrow>
     over (end_check g) \<and> winner_id (end_check g) = Some (player_id p)"
  by (auto simp: sole_owner_def end_check_def alive_players_def)

lemma end_check_over:
  "over (end_check g) \<longleftrightarrow> over g
     \<or> (\<exists>q. sole_owner (end_check g) q \<and> winner_id (end_check g) = Some (player_id q))"
proof (cases "length (alive_players g) = 1
         \<and> int (length (positions (hd (alive_players g)))) = capacity (game_board g)")
  case True
  then have "alive_players g = [hd (alive_players g)]"
    by (cases "alive_players g") simp_all
  with True have "sole_owner (end_check g) (hd (alive_players g))"
    by (simp add: sole_owner_def)
  moreover have "over (end_check g)"
    "winner_id (end_check g) = Some (player_id (hd (alive_players g)))"
    using True by (simp_all add: end_check_def)
  ultimately show ?thesis by blast
next
  case False
  then have e: "end_check g = g" by (auto simp: end_check_def)
  have "\<not> sole_owner g q" for q using False by (auto simp: sole_owner_def)
  then show ?thesis by (simp add: e)
qed

lemma resolve_duel_end_check:
  assumes "wf_game g" and "fst (resolve_duel g i w) = Inr ()"
  shows "\<exists>x. snd (resolve_duel g i w) = end_check x \<and> over x = over g
           \<and> nrows (game_board x) = nrows (game_board g)
           \<and> ncols (game_board x) = ncols (game_board g)"
proof -
  let ?d = "duel_history g ! i"
  from resolve_duel_Inr [OF assms(2)] have i: "i < length (duel_history g)"
    and w: "w = challenger ?d \<or> w = challenged ?d" by simp_all
  from i have "?d \<in> set (duel_history g)" by simp
  with assms(1) have ne: "challenger ?d \<noteq> challenged ?d" unfolding wf_game_def by blast
  define x where "x = g\<lparr>duel_history := (duel_history g)[i := ?d\<lparr>duel_winner_id := Some w\<rparr>],
      game_board := (game_board g)\<lparr>grid :=
         (\<lambda>c. if c \<in> set (positions (deref g (other_party ?d w)))
              then Some (Some w) else grid (game_board g) c)\<rparr>,
      players := map (transfer w (other_party ?d w) (positions (deref g (other_party ?d w)))
                        (expertise (deref g (challenger ?d)))) (players g)\<rparr>"
  have "snd (resolve_duel g i w) = end_check x"
    unfolding resolve_duel_success [OF i refl ne w] x_def by simp
  moreover have "over x = over g" "nrows (game_board x) = nrows (game_board g)"
    "ncols (game_board x) = ncols (game_board g)" by (simp_all add: x_def)
  ultimately show ?thesis by blast
qed

lemma set_expertise_alive:
  "\<exists>h. (\<forall>q. player_id (h q) = player_id q \<and> positions (h q) = positions q)
       \<and> alive_players (snd (set_player_expertise g k c)) = map h (alive_players g)"
proof (cases "players_get g k")
  case None
  then have "alive_players (snd (set_player_expertise g k c)) = map (\<lambda>q. q) (alive_players g)"
    by (simp add: set_player_expertise_def)
  then show ?thesis by (intro exI [of _ "\<lambda>q. q"]) simp
next
  case (Some p)
  let ?h = "\<lambda>q. if player_id q = k then choose_expertise q c else q"
  have "alive_players (snd (set_player_expertise g k c)) = map ?h (alive_players g)"
    using Some
    by (simp add: set_player_expertise_def alive_players_def update_player_def filter_map
        comp_def choose_expertise_def if_distrib [of eliminated] cong: if_cong)
  moreover have "\<forall>q. player_id (?h q) = player_id q \<and> positions (?h q) = positions q"
    by (simp add: choose_expertise_def)
  ultimately show ?thesis by (intro exI [of _ ?h]) simp
qed

lemma sole_owner_init:
  assumes "fst (new_Game ps r c) = Inr g" and "distinct (map player_id ps)"
    and "sole_owner g p"
  shows "capacity (game_board g) = 1"
proof -
  note pl = new_Game_players(1) [OF assms(1,2)] and len = new_Game_players(2) [OF assms(1,2)]
  from assms(3) have "p \<in> set (alive_players g)" by (simp add: sole_owner_def)
  then have "p \<in> set (players g)" by (simp add: alive_players_def)
  then obtain i where "i < length (players g)" "p = players g ! i"
    by (auto simp: in_set_conv_nth)
  then have "length (positions p) = 1" using len by (simp add: pl)
  with assms(3) show ?thesis by (simp add: sole_owner_def)
qed

lemma reachable_over:
  "reachable g \<Longrightarrow> capacity (game_board g) \<noteq> 1 \<Longrightarrow> sole_owner g p
     \<Longrightarrow> over g \<and> winner_id g = Some (player_id p)"
proof (induction arbitrary: p rule: reachable.induct)
  case (init ps r c g)
  then show ?case using sole_owner_init by blast
next
  case (expertise_step g k cat)
  let ?g' = "snd (set_player_expertise g k cat)"
  from set_expertise_alive [of g k cat] obtain h
    where h: "\<And>q. player_id (h q) = player_id q" "\<And>q. positions (h q) = positions q"
      and a: "alive_players ?g' = map h (alive_players g)" by blast
  from expertise_step.prems(2) a obtain q where q: "alive_players g = [q]" "p = h q"
    by (auto simp: sole_owner_def)
  with expertise_step.prems h have "sole_owner g q" "capacity (game_board g) \<noteq> 1"
    by (simp_all add: sole_owner_def set_expertise_rest capacity_def)
  then have "over g \<and> winner_id g = Some (player_id q)" by (intro expertise_step.IH)
  then show ?case using q h by (simp add: set_expertise_rest)
next
  case (challenge_step g a b)
  from challenge_step.prems have "sole_owner g p" "capacity (game_board g) \<noteq> 1"
    by (simp_all add: sole_owner_def alive_players_def challenge_players)
  then have "over g \<and> winner_id g = Some (player_id p)" by (intro challenge_step.IH)
  then show ?case by (simp add: challenge_players)
next
  case (resolve_step g i w)
  show ?case
  proof (cases "fst (resolve_duel g i w) = Inr ()")
    case True
    from reachable_invariants [OF resolve_step.hyps] have "wf_game g" by simp
    from resolve_duel_end_check [OF this True] obtain x
      where "snd (resolve_duel g i w) = end_check x" by blast
    with resolve_step.prems(2) show ?thesis by (simp add: end_check_sole)
  next
    case False
    then have "snd (resolve_duel g i w) = g" by (rule resolve_duel_failure)
    with resolve_step show ?thesis by simp
  qed
next
  case (turn_step g k)
  from turn_step.prems have "sole_owner g p" "capacity (game_board g) \<noteq> 1"
    by (simp_all add: sole_owner_def alive_players_def start_turn_fields)
  then have "over g \<and> winner_id g = Some (player_id p)" by (intro turn_step.IH)
  then show ?case by (simp add: start_turn_fields)
qed

lemma turn_candidates_set:
  "set (turn_candidates g) =
     (if \<exists>p \<in> set (players g). \<not> eliminated p \<and> length (positions p) = 1
      then {p \<in> set (players g). \<not> eliminated p \<and> length (positions p) = 1}
      else {p \<in> set (players g). \<not> eliminated p})"
  by (auto simp: turn_candidates_def alive_players_def Let_def filter_empty_conv)

lemma turn_candidates_nonempty: "alive_players g \<noteq> [] \<Longrightarrow> turn_candidates g \<noteq> []"
  by (simp add: turn_candidates_def Let_def)

lemma turn_candidates_distinct:
  "distinct (map player_id (players g)) \<Longrightarrow> distinct (map player_id (turn_candidates g))"
  by (simp add: turn_candidates_def alive_players_def Let_def distinct_map_filter)

lemma one_draw_per_candidate:
  assumes "distinct (map player_id cs)" and "p \<in> set cs"
  shows "card {k. k < length cs \<and> player_id (cs ! k) = player_id p} = 1"
proof -
  from assms(2) obtain j where j: "j < length cs" "cs ! j = p" by (auto simp: in_set_conv_nth)
  have "k = j" if "k < length cs" "player_id (cs ! k) = player_id p" for k
  proof -
    from that j have "map player_id cs ! k = map player_id cs ! j" by simp
    moreover have "k < length (map player_id cs)" "j < length (map player_id cs)"
      using that(1) j(1) by simp_all
    ultimately show ?thesis using nth_eq_iff_index_eq [OF assms(1)] by blast
  qed
  note only = this
  have "{k. k < length cs \<and> player_id (cs ! k) = player_id p} = {j}"
  proof (rule set_eqI)
    fix k
    show "k \<in> {k. k < length cs \<and> player_id (cs ! k) = player_id p} \<longleftrightarrow> k \<in> {j}"
    proof
      assume "k \<in> {k. k < length cs \<and> player_id (cs ! k) = player_id p}"
      then have "k < length cs" "player_id (cs ! k) = player_id p" by simp_all
      then have "k = j" by (rule only)
      then show "k \<in> {j}" by simp
    next
      assume "k \<in> {j}"
      then have "k = j" by simp
      with j show "k \<in> {k. k < length cs \<and> player_id (cs ! k) = player_id p}" by simp
    qed
  qed
  then show ?thesis by simp
qed

section \<open>Facts about the example runs\<close>

lemma succeeded_game: "succeeded r \<Longrightarrow> fst r = Inr (the_game r)"
  by (cases "fst r") (simp_all add: succeeded_def the_game_def)

lemma failed_with_fst: "failed_with r e \<Longrightarrow> fst r = Inl e"
  by (cases "fst r") (simp_all add: failed_with_def)

lemma duo0_built: "fst (new_Game [new_Player 1 ''Alice'', new_Player 2 ''Bob''] 1 2) = Inr duo0"
proof -
  have "succeeded (new_Game [new_Player 1 ''Alice'', new_Player 2 ''Bob''] 1 2)" by code_simp
  then show ?thesis unfolding duo0_def by (rule succeeded_game)
qed

lemma reachable_duo0: "reachable duo0"
proof -
  have "distinct (map player_id [new_Player 1 ''Alice'', new_Player 2 ''Bob''])" by code_simp
  then show ?thesis using duo0_built by (rule reachable.init)
qed

lemma reachable_duo2: "reachable duo2"
  unfolding duo2_def duo1_def
  by (intro reachable.challenge_step reachable.expertise_step reachable_duo0)

lemma reachable_duo4: "reachable duo4"
  unfolding duo4_def duo3_def
  by (intro reachable.resolve_step reachable_duo2)

lemma solo0_built: "fst (new_Game [new_Player 1 ''Solo''] 1 1) = Inr solo0"
proof -
  have "succeeded (new_Game [new_Player 1 ''Solo''] 1 1)" by code_simp
  then show ?thesis unfolding solo0_def by (rule succeeded_game)
qed

lemma reachable_solo0: "reachable solo0"
proof -
  have "distinct (map player_id [new_Player 1 ''Solo''])" by code_simp
  then show ?thesis using solo0_built by (rule reachable.init)
qed

lemma reachable_duo3: "reachable duo3"
  unfolding duo3_def by (intro reachable.resolve_step reachable_duo2)

lemma place_players_raises_unchanged:
  "fst (place_players b ps) = Inl e \<Longrightarrow> snd (place_players b ps) = (b, ps)"
  by (simp add: place_players_def split: if_splits prod.splits)

section \<open>The claims\<close>

text \<open>
  Claim C1. In every reachable state the players' positions together are exactly the
  cells of the board, two different players never share a cell, and the grid maps every
  cell to the id of a player whose positions hold it (by the second part, the only one).
  Reachable means: built from players with pairwise different ids, then any calls of the
  four operations.
\<close>

theorem partition_invariant:
  assumes "reachable g"
  shows "(\<Union>p \<in> set (players g). set (positions p))
           = set (cells (nrows (game_board g)) (ncols (game_board g)))
    \<and> (\<forall>p \<in> set (players g). \<forall>q \<in> set (players g).
          p \<noteq> q \<longrightarrow> set (positions p) \<inter> set (positions q) = {})
    \<and> (\<forall>cell \<in> set (cells (nrows (game_board g)) (ncols (game_board g))).
          \<exists>p \<in> set (players g). cell \<in> set (positions p)
             \<and> grid (game_board g) cell = Some (Some (player_id p)))"
proof -
  from reachable_invariants [OF assms] have wf: "wf_game g" and pa: "partition_inv g" by simp_all
  from wf have di: "distinct (map player_id (players g))" by (simp add: wf_game_def)
  have "player_id p \<noteq> player_id q"
    if "p \<in> set (players g)" "q \<in> set (players g)" "p \<noteq> q" for p q
    using same_id_same_player [OF di that(1,2)] that(3) by blast
  then show ?thesis using pa unfolding partition_inv_def board_cells_def by blast
qed

theorem partition_invariant_witness:
  "reachable duo4
   \<and> (\<Union>p \<in> set (players duo4). set (positions p)) = set (cells 1 2)
   \<and> positions (deref duo4 1) = [(0, 1), (0, 0)] \<and> positions (deref duo4 2) = []
   \<and> grid (game_board duo4) (0, 0) = Some (Some 1)
   \<and> grid (game_board duo4) (0, 1) = Some (Some 1)"
proof -
  have d: "nrows (game_board duo4) = 1 \<and> ncols (game_board duo4) = 2" by code_simp
  have e: "positions (deref duo4 1) = [(0, 1), (0, 0)] \<and> positions (deref duo4 2) = []
           \<and> grid (game_board duo4) (0, 0) = Some (Some 1)
           \<and> grid (game_board duo4) (0, 1) = Some (Some 1)" by code_simp
  show ?thesis
    using partition_invariant [OF reachable_duo4] reachable_duo4 d e by simp
qed

text \<open>
  Claim C6. \<open>challenge\<close> fails with \<open>SelfChallenge\<close> when the two ids are equal;
  otherwise with \<open>UnknownPlayer\<close> when one of them is not registered; otherwise with
  \<open>NoExpertiseSet\<close> when the challenged player has no expertise; and in every other
  case it succeeds: it appends to the history, and returns, a new duel between the two
  whose category is the challenged player's current expertise and whose winner is unset,
  and changes nothing else. Every failure leaves the game as it was.
\<close>

theorem challenge_outcomes:
  "(a = b \<longrightarrow> challenge g a b = (Inl SelfChallenge, g))
   \<and> (a \<noteq> b \<and> (players_get g a = None \<or> players_get g b = None)
        \<longrightarrow> challenge g a b = (Inl UnknownPlayer, g))
   \<and> (a \<noteq> b \<and> players_get g a \<noteq> None \<and> players_get g b \<noteq> None
        \<and> expertise (deref g b) = None
        \<longrightarrow> challenge g a b = (Inl NoExpertiseSet, g))
   \<and> (a \<noteq> b \<and> players_get g a \<noteq> None \<and> players_get g b \<noteq> None
        \<and> expertise (deref g b) = Some cat
        \<longrightarrow> challenge g a b =
              (Inr (length (duel_history g)),
               g\<lparr>duel_history := duel_history g @
                   [\<lparr>challenger = a, challenged = b, duel_category = cat,
                     duel_winner_id = None\<rparr>]\<rparr>))"
  by (auto simp: challenge_def deref_def split: option.splits)

theorem challenge_outcomes_witness:
  "challenge duo0 1 1 = (Inl SelfChallenge, duo0)
   \<and> challenge duo0 1 7 = (Inl UnknownPlayer, duo0)
   \<and> challenge duo0 1 2 = (Inl NoExpertiseSet, duo0)
   \<and> challenge duo1 1 2 =
       (Inr (length (duel_history duo1)),
        duo1\<lparr>duel_history := duel_history duo1 @
             [\<lparr>challenger = 1, challenged = 2, duel_category = new_Category ''Science'',
               duel_winner_id = None\<rparr>]\<rparr>)"
proof -
  have a: "players_get duo0 7 = None" by code_simp
  have b: "players_get duo0 1 \<noteq> None \<and> players_get duo0 2 \<noteq> None \<and> expertise (deref duo0 2) = None"
    by code_simp
  have c: "players_get duo1 1 \<noteq> None \<and> players_get duo1 2 \<noteq> None
           \<and> expertise (deref duo1 2) = Some (new_Category ''Science'')"
    by code_simp
  show ?thesis
    using a b c challenge_outcomes [of 1 1 duo0] challenge_outcomes [of 1 7 duo0]
      challenge_outcomes [of 1 2 duo0 undefined]
      challenge_outcomes [of 1 2 duo1 "new_Category ''Science''"]
    by simp
qed

text \<open>
  Claim C10. A call of \<open>set_player_expertise\<close>, \<open>challenge\<close> or \<open>resolve_duel\<close> that raises
  leaves the whole game (players, grid, history, \<open>over\<close>, \<open>winner_id\<close>,
  \<open>turn_challenger_id\<close>) as it was, and a construction that raises leaves the players it
  was given as they were.
\<close>

theorem failed_call_leaves_state:
  "(fst (set_player_expertise g k cat) = Inl e \<longrightarrow> snd (set_player_expertise g k cat) = g)
   \<and> (fst (challenge g a b) = Inl e \<longrightarrow> snd (challenge g a b) = g)
   \<and> (fst (resolve_duel g i w) = Inl e \<longrightarrow> snd (resolve_duel g i w) = g)
   \<and> (fst (new_Game ps r c) = Inl e \<longrightarrow> snd (new_Game ps r c) = ps)"
proof (intro conjI impI)
  assume "fst (set_player_expertise g k cat) = Inl e"
  then show "snd (set_player_expertise g k cat) = g"
    by (simp add: set_player_expertise_def split: option.splits)
next
  assume "fst (challenge g a b) = Inl e"
  then show "snd (challenge g a b) = g"
    by (simp add: challenge_def split: if_splits option.splits)
next
  assume f: "fst (resolve_duel g i w) = Inl e"
  show "snd (resolve_duel g i w) = g"
  proof (cases "i < length (duel_history g)")
    case False
    then show ?thesis by (simp add: resolve_duel_def)
  next
    case True
    obtain x d' where r: "resolve (duel_history g ! i) w = (x, d')" by (cases "resolve (duel_history g ! i) w")
    show ?thesis
    proof (cases x)
      case (Inl e')
      with r have "d' = duel_history g ! i"
        using resolve_raises_unchanged [of "duel_history g ! i" w e'] by simp
      with True r Inl show ?thesis by (simp add: resolve_duel_def)
    next
      case (Inr u)
      with True r f show ?thesis by (simp add: resolve_duel_def Let_def)
    qed
  qed
next
  assume f: "fst (new_Game ps r c) = Inl e"
  show "snd (new_Game ps r c) = ps"
  proof (cases "int (length ps) \<noteq> r * c")
    case True
    then show ?thesis by (simp add: new_Game_def)
  next
    case False
    show ?thesis
    proof (cases "new_Board r c")
      case (Inl e')
      with False show ?thesis by (simp add: new_Game_def)
    next
      case (Inr bd)
      obtain x b' ps' where p: "place_players bd ps = (x, b', ps')" by (cases "place_players bd ps")
      show ?thesis
      proof (cases x)
        case (Inl e')
        with p have "ps' = ps" using place_players_raises_unchanged [of bd ps e'] by simp
        with False Inr p Inl show ?thesis by (simp add: new_Game_def)
      next
        case (Inr u)
        with False \<open>new_Board r c = Inr bd\<close> p f show ?thesis by (simp add: new_Game_def)
      qed
    qed
  qed
qed

theorem failed_call_leaves_state_witness:
  "snd (set_player_expertise duo0 7 (new_Category ''Art'')) = duo0
   \<and> snd (challenge duo0 1 2) = duo0
   \<and> snd (resolve_duel duo2 0 9) = duo2
   \<and> snd (resolve_duel duo2 5 1) = duo2
   \<and> snd (new_Game [new_Player 1 ''One'', new_Player 2 ''Two''] 2 2)
       = [new_Player 1 ''One'', new_Player 2 ''Two'']
   \<and> snd (new_Game [new_Player 1 ''One'', new_Player 2 ''Two''] (- 1) (- 2))
       = [new_Player 1 ''One'', new_Player 2 ''Two'']"
proof -
  have a: "fst (set_player_expertise duo0 7 (new_Category ''Art'')) = Inl UnknownPlayer" by code_simp
  have b: "fst (challenge duo0 1 2) = Inl NoExpertiseSet" by code_simp
  have c: "fst (resolve_duel duo2 0 9) = Inl InvalidWinner" by code_simp
  have d: "fst (resolve_duel duo2 5 1) = Inl UnknownDuel" by code_simp
  have "failed_with (new_Game [new_Player 1 ''One'', new_Player 2 ''Two''] 2 2) CardinalityMismatch"
    by code_simp
  then have e: "fst (new_Game [new_Player 1 ''One'', new_Player 2 ''Two''] 2 2) = Inl CardinalityMismatch"
    by (rule failed_with_fst)
  have "failed_with (new_Game [new_Player 1 ''One'', new_Player 2 ''Two''] (- 1) (- 2)) InvalidDimension"
    by code_simp
  then have f: "fst (new_Game [new_Player 1 ''One'', new_Player 2 ''Two''] (- 1) (- 2)) = Inl InvalidDimension"
    by (rule failed_with_fst)
  show ?thesis
    using a b c d e f
      failed_call_leaves_state [of duo0 7 "new_Category ''Art''" UnknownPlayer 1 1 0 0 "[]" 0 0]
      failed_call_leaves_state [of duo0 7 "new_Category ''Art''" NoExpertiseSet 1 2 0 0 "[]" 0 0]
      failed_call_leaves_state [of duo2 7 "new_Category ''Art''" InvalidWinner 1 2 0 9 "[]" 0 0]
      failed_call_leaves_state [of duo2 7 "new_Category ''Art''" UnknownDuel 1 2 5 1 "[]" 0 0]
      failed_call_leaves_state [of duo2 7 "new_Category ''Art''" CardinalityMismatch 1 2 5 1
        "[new_Player 1 ''One'', new_Player 2 ''Two'']" 2 2]
      failed_call_leaves_state [of duo2 7 "new_Category ''Art''" InvalidDimension 1 2 5 1
        "[new_Player 1 ''One'', new_Player 2 ''Two'']" "- 1" "- 2"]
    by simp
qed

text \<open>
  Claim C2 asks that resolving a duel whose winner is already recorded fails with
  \<open>InvalidWinner\<close>. The code has no such check: in the 1x2 game, after Bob (2) has won
  duel 0, both \<open>Duel.resolve\<close> and \<open>resolve_duel\<close> succeed again on that duel for Alice
  (1); the recorded winner is overwritten and Bob's two cells move to Alice.
\<close>

theorem second_resolution_succeeds:
  "duel_winner_id (duel_history duo3 ! 0) = Some 2
   \<and> fst (resolve (duel_history duo3 ! 0) 1) = Inr ()
   \<and> fst (resolve_duel duo3 0 1) = Inr ()
   \<and> positions (deref duo3 1) = [] \<and> positions (deref duo3 2) = [(0, 1), (0, 0)]
   \<and> positions (deref duo4 1) = [(0, 1), (0, 0)] \<and> positions (deref duo4 2) = []
   \<and> duel_winner_id (duel_history duo4 ! 0) = Some 1"
  by code_simp

text \<open>
  Claim C3 asks that a player is eliminated exactly when it owns no cell. The code
  never looks at \<open>eliminated\<close> or at a recorded winner when it resolves a duel, so an
  eliminated player can win cells: by the second resolution of duel 0 in the 1x2 game,
  and also in the 1x3 game, where every duel is resolved once only (player 1 loses duel
  0 and then wins duel 1, which was pending). In both runs player 1 ends eliminated and
  owning cells.
\<close>

theorem eliminated_player_owns_cells:
  "fst (resolve_duel duo2 0 2) = Inr () \<and> fst (resolve_duel duo3 0 1) = Inr ()
   \<and> eliminated (deref duo4 1) \<and> positions (deref duo4 1) = [(0, 1), (0, 0)]
   \<and> duel_winner_id (duel_history trio2 ! 0) = None
   \<and> duel_winner_id (duel_history trio2 ! 1) = None
   \<and> fst (resolve_duel trio2 0 2) = Inr ()
   \<and> duel_winner_id (duel_history trio3 ! 1) = None
   \<and> fst (resolve_duel trio3 1 1) = Inr ()
   \<and> eliminated (deref trio4 1) \<and> positions (deref trio4 1) = [(0, 2)]"
  by code_simp

text \<open>
  Claim C9 says that \<open>ownerAt\<close> fails with \<open>OutOfRange\<close> outside the board. The code
  is \<open>self._grid.get((row, col))\<close>, which raises nothing: on the 1x2 board the lookup
  of (5, 5) returns \<open>None\<close>.
\<close>

theorem owner_out_of_range_counterexample:
  "nrows (game_board duo0) = 1 \<and> ncols (game_board duo0) = 2
   \<and> get_player_at (game_board duo0) 5 5 = Inr None
   \<and> get_player_at (game_board duo0) 5 5 \<noteq> Inl OutOfRange"
  by code_simp

text \<open>
  Claim C9, amended. In a reachable state \<open>get_player_at\<close> never fails: for
  coordinates inside the board it returns the id of the player whose positions hold the
  cell, and for coordinates outside it returns \<open>None\<close>.
\<close>

theorem owner_lookup:
  assumes "reachable g"
  shows "(0 \<le> row \<and> row < nrows (game_board g) \<and> 0 \<le> col \<and> col < ncols (game_board g)
            \<longrightarrow> (\<exists>p \<in> set (players g). (row, col) \<in> set (positions p)
                   \<and> get_player_at (game_board g) row col = Inr (Some (player_id p))))
    \<and> (\<not> (0 \<le> row \<and> row < nrows (game_board g) \<and> 0 \<le> col \<and> col < ncols (game_board g))
            \<longrightarrow> get_player_at (game_board g) row col = Inr None)"
proof -
  from reachable_invariants [OF assms] have pa: "partition_inv g" and gd: "grid_dom_inv g"
    by simp_all
  have c: "(row, col) \<in> board_cells g \<longleftrightarrow>
       0 \<le> row \<and> row < nrows (game_board g) \<and> 0 \<le> col \<and> col < ncols (game_board g)"
    by (simp add: board_cells_def set_cells)
  show ?thesis
  proof (cases "(row, col) \<in> board_cells g")
    case True
    with pa obtain p where "p \<in> set (players g)" "(row, col) \<in> set (positions p)"
      "grid (game_board g) (row, col) = Some (Some (player_id p))"
      unfolding partition_inv_def by blast
    then show ?thesis using True c by (auto simp: get_player_at_def)
  next
    case False
    with gd have "grid (game_board g) (row, col) = None" by (simp add: grid_dom_inv_def)
    then show ?thesis using False c by (simp add: get_player_at_def)
  qed
qed

theorem owner_lookup_witness:
  "reachable duo0
   \<and> get_player_at (game_board duo0) 0 1 = Inr (Some 2)
   \<and> get_player_at (game_board duo0) 5 5 = Inr None
   \<and> get_player_at (game_board duo0) 0 (- 1) = Inr None"
proof -
  have d: "nrows (game_board duo0) = 1 \<and> ncols (game_board duo0) = 2" by code_simp
  have e: "get_player_at (game_board duo0) 0 1 = Inr (Some 2)" by code_simp
  show ?thesis
    using owner_lookup [OF reachable_duo0, of 0 1] owner_lookup [OF reachable_duo0, of 5 5]
      owner_lookup [OF reachable_duo0, of 0 "- 1"] reachable_duo0 d e
    by simp
qed

text \<open>
  Claim C7. Construction fails with \<open>CardinalityMismatch\<close> exactly when the number
  of players differs from \<open>rows * cols\<close>; with positive dimensions and the right number
  of players it succeeds; and on success the players stand in row-major order: the
  \<open>i\<close>-th player of the list (ids pairwise different) has the single position
  \<open>(i div cols, i mod cols)\<close>, both as the game's player of that id and in the caller's
  list, and the grid maps that cell to the player's id.
\<close>

theorem construction_row_major:
  "(fst (new_Game ps r c) = Inl CardinalityMismatch \<longleftrightarrow> int (length ps) \<noteq> r * c)
   \<and> (0 < r \<and> 0 < c \<and> int (length ps) = r * c \<longrightarrow> (\<exists>g. fst (new_Game ps r c) = Inr g))
   \<and> (\<forall>g i. fst (new_Game ps r c) = Inr g \<and> distinct (map player_id ps) \<and> i < length ps \<longrightarrow>
         players_get g (player_id (ps ! i))
           = Some ((ps ! i)\<lparr>positions := [(int i div c, int i mod c)]\<rparr>)
         \<and> snd (new_Game ps r c) ! i = (ps ! i)\<lparr>positions := [(int i div c, int i mod c)]\<rparr>
         \<and> grid (game_board g) (int i div c, int i mod c) = Some (Some (player_id (ps ! i))))"
proof (intro conjI allI impI)
  show "fst (new_Game ps r c) = Inl CardinalityMismatch \<longleftrightarrow> int (length ps) \<noteq> r * c"
    by (rule new_Game_mismatch)
next
  assume "0 < r \<and> 0 < c \<and> int (length ps) = r * c"
  then show "\<exists>g. fst (new_Game ps r c) = Inr g" by (simp add: new_Game_succeeds)
next
  fix g i
  assume a: "fst (new_Game ps r c) = Inr g \<and> distinct (map player_id ps) \<and> i < length ps"
  then have ok: "fst (new_Game ps r c) = Inr g" and di: "distinct (map player_id ps)"
    and i: "i < length ps" by simp_all
  note pl = new_Game_players(1) [OF ok di] and len = new_Game_players(2) [OF ok di]
  from i len have "i < nat r * nat c" by (simp add: length_cells)
  then have cell: "cells r c ! i = (int i div c, int i mod c)" by (rule nth_cells)
  have nth: "players g ! i = (ps ! i)\<lparr>positions := [(int i div c, int i mod c)]\<rparr>"
    using i len cell by (simp add: pl)
  have "length (players g) = length ps" using len by (simp add: pl)
  with i have mem: "players g ! i \<in> set (players g)" by simp
  have dg: "distinct (map player_id (players g))" using di len by (simp only: pl placed_ids)
  have "find (\<lambda>q. player_id q = player_id (players g ! i)) (players g) = Some (players g ! i)"
    using dg mem by (rule find_member)
  then show "players_get g (player_id (ps ! i))
           = Some ((ps ! i)\<lparr>positions := [(int i div c, int i mod c)]\<rparr>)"
    by (simp add: players_get_def nth)
  show "snd (new_Game ps r c) ! i = (ps ! i)\<lparr>positions := [(int i div c, int i mod c)]\<rparr>"
    using i len cell by (simp add: new_Game_snd [OF ok] place_loop_players)
  have "fst (place_loop (cells r c) ps (fold (\<lambda>cell m. m(cell \<mapsto> None)) (cells r c) Map.empty))
          (cells r c ! i) = Some (Some (player_id (ps ! i)))"
    using len distinct_cells i by (intro place_loop_grid_in) simp_all
  then show "grid (game_board g) (int i div c, int i mod c) = Some (Some (player_id (ps ! i)))"
    by (simp add: new_Game_Inr(7) [OF ok] cell)
qed

theorem construction_row_major_witness:
  "fst (new_Game [new_Player 1 ''One'', new_Player 2 ''Two''] 2 2) = Inl CardinalityMismatch
   \<and> fst (new_Game [new_Player 1 ''Alice'', new_Player 2 ''Bob''] 1 2) = Inr duo0
   \<and> players_get duo0 2 = Some ((new_Player 2 ''Bob'')\<lparr>positions := [(0, 1)]\<rparr>)
   \<and> grid (game_board duo0) (0, 1) = Some (Some 2)"
proof -
  let ?ps = "[new_Player 1 ''Alice'', new_Player 2 ''Bob'']"
  have a: "distinct (map player_id ?ps) \<and> (1::nat) < length ?ps \<and> player_id (?ps ! 1) = 2
           \<and> ?ps ! 1 = new_Player 2 ''Bob''"
    by code_simp
  have b: "int (length [new_Player 1 ''One'', new_Player 2 ''Two'']) \<noteq> 2 * 2" by simp
  have c: "(int 1 div 2, int 1 mod 2) = (0::int, 1::int)" by simp
  show ?thesis
    using a b c duo0_built
      construction_row_major [of "[new_Player 1 ''One'', new_Player 2 ''Two'']" 2 2]
      construction_row_major [of ?ps 1 2, THEN conjunct2, THEN conjunct2, THEN spec, THEN spec,
        of duo0 1]
    by simp
qed

text \<open>
  Claim C5 takes the challenger's expertise at challenge time. The code reads
  \<open>duel.challenger.expertise\<close> when the duel is resolved: Alice (1) has no expertise when
  she challenges Bob (2), declares History afterwards, and Bob, who wins, ends with
  History, not with the expertise Alice had at challenge time.
\<close>

theorem expertise_at_challenge_time_counterexample:
  "fst (challenge duo1 1 2) = Inr 0
   \<and> expertise (deref duo1 1) = None \<and> expertise (deref duo2 1) = None
   \<and> fst (resolve_duel late2 0 2) = Inr ()
   \<and> duel_winner_id (duel_history late3 ! 0) = Some 2
   \<and> expertise (deref late3 2) = Some (new_Category ''History'')
   \<and> expertise (deref late3 2) \<noteq> expertise (deref duo2 1)"
  by code_simp

text \<open>
  Claim C5, amended. After a successful \<open>resolve_duel\<close> in a reachable state, the
  duel's recorded winner is \<open>w\<close> and the winning player's expertise is the expertise the
  challenger had immediately before the call, whichever side won.
\<close>

theorem winner_inherits_expertise:
  assumes "reachable g" and "fst (resolve_duel g i w) = Inr ()"
  shows "duel_winner_id (duel_history (snd (resolve_duel g i w)) ! i) = Some w
    \<and> expertise (deref (snd (resolve_duel g i w)) w)
        = expertise (deref g (challenger (duel_history g ! i)))"
proof -
  let ?d = "duel_history g ! i"
  let ?li = "other_party ?d w"
  from reachable_invariants [OF assms(1)] have wf: "wf_game g" by simp
  from resolve_duel_Inr [OF assms(2)] have i: "i < length (duel_history g)"
    and w: "w = challenger ?d \<or> w = challenged ?d" by simp_all
  from i have mem: "?d \<in> set (duel_history g)" by simp
  with wf have ne: "challenger ?d \<noteq> challenged ?d"
    and reg: "challenger ?d \<in> player_id ` set (players g)"
             "challenged ?d \<in> player_id ` set (players g)"
    and di: "distinct (map player_id (players g))"
    unfolding wf_game_def by blast+
  from w ne reg obtain wp where wp: "wp \<in> set (players g)" "player_id wp = w"
    and wl: "w \<noteq> ?li"
    by (auto simp: other_party_def)
  note s = resolve_duel_success [OF i refl ne w]
  have "find (\<lambda>p. player_id p = w) (players g) = Some wp"
    using find_member [OF di wp(1)] wp(2) by simp
  then have "deref (snd (resolve_duel g i w)) w
        = transfer w ?li (positions (deref g ?li)) (expertise (deref g (challenger ?d))) wp"
    unfolding s by (simp add: deref_def players_get_def find_map_id)
  then have "expertise (deref (snd (resolve_duel g i w)) w)
        = expertise (deref g (challenger ?d))"
    using wp(2) wl by (simp add: transfer_def)
  moreover have "duel_winner_id (duel_history (snd (resolve_duel g i w)) ! i) = Some w"
    unfolding s using i by simp
  ultimately show ?thesis by simp
qed

theorem winner_inherits_expertise_witness:
  "reachable late2 \<and> fst (resolve_duel late2 0 2) = Inr ()
   \<and> expertise (deref late2 1) = Some (new_Category ''History'')
   \<and> expertise (deref late3 2) = Some (new_Category ''History'')"
proof -
  have r: "reachable late2" unfolding late2_def by (intro reachable.expertise_step reachable_duo2)
  have a: "fst (resolve_duel late2 0 2) = Inr ()" by code_simp
  have b: "challenger (duel_history late2 ! 0) = 1
           \<and> expertise (deref late2 1) = Some (new_Category ''History'')" by code_simp
  show ?thesis
    using winner_inherits_expertise [OF r a] r a b by (simp add: late3_def)
qed

text \<open>
  Claim C4 says that \<open>over\<close> holds exactly when one player is left and owns the whole
  board. \<open>Game.__init__\<close> sets \<open>over = False\<close> and only \<open>resolve_duel\<close> ever sets it: the
  game on a single cell starts with its only player alive and owning every cell, and is
  not over.
\<close>

theorem one_cell_game_not_over_counterexample:
  "reachable solo0 \<and> \<not> over solo0 \<and> alive_players solo0 = [deref solo0 1]
   \<and> int (length (positions (deref solo0 1))) = capacity (game_board solo0)"
proof -
  have "\<not> over solo0 \<and> alive_players solo0 = [deref solo0 1]
        \<and> int (length (positions (deref solo0 1))) = capacity (game_board solo0)"
    by code_simp
  then show ?thesis using reachable_solo0 by simp
qed

text \<open>
  Claim C4, amended. In a reachable state of a game whose board has more than one
  cell, if exactly one player is not eliminated and owns as many cells as the board has,
  then \<open>over\<close> is true and \<open>winner_id\<close> is that player's id. \<open>over\<close> turns true only in
  a \<open>resolve_duel\<close> after which such a player exists and is recorded as the winner: a
  constructed game is not over, and \<open>set_player_expertise\<close>, \<open>challenge\<close> and
  \<open>start_turn\<close> leave a game that is not over not over. No operation turns \<open>over\<close> back
  to false. Whether a sole owner still exists in every later state where \<open>over\<close> is true
  is not part of the statement.
\<close>

theorem game_over_check:
  assumes "reachable g"
  shows "(capacity (game_board g) \<noteq> 1 \<and> sole_owner g p
            \<longrightarrow> over g \<and> winner_id g = Some (player_id p))
    \<and> (\<not> over g \<and> over (snd (resolve_duel g i w))
            \<longrightarrow> (\<exists>q. sole_owner (snd (resolve_duel g i w)) q
                   \<and> winner_id (snd (resolve_duel g i w)) = Some (player_id q)))
    \<and> (over g \<longrightarrow> over (snd (set_player_expertise g k cat)) \<and> over (snd (challenge g a b))
                   \<and> over (snd (resolve_duel g i w)) \<and> over (snd (start_turn g n)))
    \<and> (\<not> over g \<longrightarrow> \<not> over (snd (set_player_expertise g k cat))
                   \<and> \<not> over (snd (challenge g a b)) \<and> \<not> over (snd (start_turn g n)))
    \<and> (\<forall>ps r c g0. fst (new_Game ps r c) = Inr g0 \<longrightarrow> \<not> over g0)"
proof -
  from reachable_invariants [OF assms] have wf: "wf_game g" by simp
  have r: "over (snd (resolve_duel g i w)) \<longleftrightarrow> over g
            \<or> (\<exists>q. sole_owner (snd (resolve_duel g i w)) q
                   \<and> winner_id (snd (resolve_duel g i w)) = Some (player_id q))"
    if "fst (resolve_duel g i w) = Inr ()"
  proof -
    from resolve_duel_end_check [OF wf that] obtain x
      where x: "snd (resolve_duel g i w) = end_check x" "over x = over g" by blast
    show ?thesis unfolding x(1) using end_check_over [of x] x(2) by simp
  qed
  have f: "snd (resolve_duel g i w) = g" if "fst (resolve_duel g i w) \<noteq> Inr ()"
    using that by (rule resolve_duel_failure)
  have 1: "capacity (game_board g) \<noteq> 1 \<and> sole_owner g p
            \<longrightarrow> over g \<and> winner_id g = Some (player_id p)"
    using reachable_over [OF assms] by blast
  have 2: "\<not> over g \<and> over (snd (resolve_duel g i w))
            \<longrightarrow> (\<exists>q. sole_owner (snd (resolve_duel g i w)) q
                   \<and> winner_id (snd (resolve_duel g i w)) = Some (player_id q))"
    using r f by (cases "fst (resolve_duel g i w) = Inr ()") auto
  have 3: "over g \<longrightarrow> over (snd (resolve_duel g i w))"
    using r f by (cases "fst (resolve_duel g i w) = Inr ()") auto
  have 4: "\<forall>ps r c g0. fst (new_Game ps r c) = Inr g0 \<longrightarrow> \<not> over g0"
    using new_Game_Inr(11) by blast
  show ?thesis
    using 1 2 3 4 by (simp add: set_expertise_rest challenge_players start_turn_fields)
qed

theorem game_over_check_witness:
  "reachable duo2 \<and> \<not> over duo0 \<and> \<not> over duo1 \<and> \<not> over duo2
   \<and> \<not> over (snd (start_turn duo2 0))
   \<and> over duo3 \<and> sole_owner duo3 (deref duo3 2)
   \<and> winner_id duo3 = Some 2 \<and> over duo4"
proof -
  have a: "over duo3 \<and> capacity (game_board duo3) \<noteq> 1
           \<and> sole_owner duo3 (deref duo3 2) \<and> player_id (deref duo3 2) = 2"
    by code_simp
  have r1: "reachable duo1" unfolding duo1_def by (intro reachable.expertise_step reachable_duo0)
  from game_over_check [OF reachable_duo0] duo0_built have n0: "\<not> over duo0" by blast
  with game_over_check [OF reachable_duo0, of _ _ _ 2 "new_Category ''Science''"]
  have n1: "\<not> over duo1" unfolding duo1_def by blast
  with game_over_check [OF r1, of _ _ _ _ _ 1 2]
  have n2: "\<not> over duo2" unfolding duo2_def by blast
  with game_over_check [OF reachable_duo2, of _ _ _ _ _ _ _ 0]
  have n3: "\<not> over (snd (start_turn duo2 0))" by blast
  show ?thesis
    using a n0 n1 n2 n3 reachable_duo2
      game_over_check [OF reachable_duo3, of "deref duo3 2" 0 1]
      game_over_check [OF reachable_duo2, of "deref duo3 2" 0 2]
    by (simp add: duo3_def [symmetric] duo4_def [symmetric])
qed

text \<open>
  Claim C8. In a reachable state \<open>start_turn\<close> chooses among the players that are not
  eliminated and own exactly one cell if there is such a player, and among all players
  that are not eliminated otherwise. If every player is eliminated it returns \<open>None\<close> and
  \<open>turn_challenger_id\<close> is \<open>None\<close> afterwards; otherwise there is a candidate, and for
  every draw \<open>k\<close> below the number of candidates it returns the id of the \<open>k\<close>-th
  candidate, records it in \<open>turn_challenger_id\<close>, and that player is a player of the game
  that is not eliminated. The choice is uniform: every candidate is returned for exactly
  one of the equally likely draws.
\<close>

theorem start_turn_selection:
  assumes "reachable g"
  shows "set (turn_candidates g) =
       (if \<exists>p \<in> set (players g). \<not> eliminated p \<and> length (positions p) = 1
        then {p \<in> set (players g). \<not> eliminated p \<and> length (positions p) = 1}
        else {p \<in> set (players g). \<not> eliminated p})
    \<and> ((\<forall>p \<in> set (players g). eliminated p)
          \<longrightarrow> start_turn g k = (None, g\<lparr>turn_challenger_id := None\<rparr>))
    \<and> (\<not> (\<forall>p \<in> set (players g). eliminated p)
          \<longrightarrow> turn_candidates g \<noteq> []
            \<and> (k < length (turn_candidates g)
                 \<longrightarrow> start_turn g k =
                       (Some (player_id (turn_candidates g ! k)),
                        g\<lparr>turn_challenger_id := Some (player_id (turn_candidates g ! k))\<rparr>)
                     \<and> turn_candidates g ! k \<in> set (players g)
                     \<and> \<not> eliminated (turn_candidates g ! k)))
    \<and> (\<forall>p \<in> set (turn_candidates g).
          card {k. k < length (turn_candidates g) \<and> fst (start_turn g k) = Some (player_id p)} = 1)"
proof -
  from reachable_invariants [OF assms] have di: "distinct (map player_id (players g))"
    by (simp add: wf_game_def)
  have al: "alive_players g = [] \<longleftrightarrow> (\<forall>p \<in> set (players g). eliminated p)"
    by (auto simp: alive_players_def filter_empty_conv)
  have 1: "(\<forall>p \<in> set (players g). eliminated p)
          \<longrightarrow> start_turn g k = (None, g\<lparr>turn_challenger_id := None\<rparr>)"
    using al by (simp add: start_turn_def)
  have mem: "turn_candidates g ! k \<in> set (players g) \<and> \<not> eliminated (turn_candidates g ! k)"
    if "k < length (turn_candidates g)" for k
  proof -
    from that have "turn_candidates g ! k \<in> set (turn_candidates g)" by simp
    then show ?thesis unfolding turn_candidates_set by (auto split: if_splits)
  qed
  have 2: "\<not> (\<forall>p \<in> set (players g). eliminated p)
          \<longrightarrow> turn_candidates g \<noteq> []
            \<and> (k < length (turn_candidates g)
                 \<longrightarrow> start_turn g k =
                       (Some (player_id (turn_candidates g ! k)),
                        g\<lparr>turn_challenger_id := Some (player_id (turn_candidates g ! k))\<rparr>)
                     \<and> turn_candidates g ! k \<in> set (players g)
                     \<and> \<not> eliminated (turn_candidates g ! k))"
    using al mem [of k] by (simp add: start_turn_def Let_def turn_candidates_nonempty)
  have 3: "card {k. k < length (turn_candidates g) \<and> fst (start_turn g k) = Some (player_id p)} = 1"
    if "p \<in> set (turn_candidates g)" for p
  proof -
    from that have "turn_candidates g \<noteq> []" by auto
    then have "alive_players g \<noteq> []" by (auto simp: turn_candidates_def Let_def)
    then have "fst (start_turn g k) = Some (player_id (turn_candidates g ! k))" for k
      by (simp add: start_turn_def Let_def)
    then show ?thesis
      using one_draw_per_candidate [OF turn_candidates_distinct [OF di] that] by simp
  qed
  show ?thesis using turn_candidates_set [of g] 1 2 3 by blast
qed

theorem start_turn_selection_witness:
  "reachable duo0 \<and> reachable duo4
   \<and> turn_candidates duo0 = [deref duo0 1, deref duo0 2]
   \<and> fst (start_turn duo0 1) = Some 2
   \<and> turn_challenger_id (snd (start_turn duo0 1)) = Some 2
   \<and> start_turn duo4 0 = (None, duo4\<lparr>turn_challenger_id := None\<rparr>)
   \<and> card {k. k < length (turn_candidates duo0)
              \<and> fst (start_turn duo0 k) = Some (player_id (deref duo0 2))} = 1"
proof -
  have a: "turn_candidates duo0 = [deref duo0 1, deref duo0 2]
           \<and> player_id (deref duo0 2) = 2
           \<and> \<not> (\<forall>p \<in> set (players duo0). eliminated p)" by code_simp
  have b: "\<forall>p \<in> set (players duo4). eliminated p" by code_simp
  show ?thesis
    using a b reachable_duo0 reachable_duo4
      start_turn_selection [OF reachable_duo0, of 1]
      start_turn_selection [OF reachable_duo4, of 0]
    by simp
qed

end
